theory Spec2Isabelle
  imports Main "HOL-Library.Multiset"
begin

section \<open>The sort plugin of svelte-headless-table (addSortBy.ts)\<close>

text \<open>
  A shallow embedding of \<^verbatim>\<open>src/lib/plugins/addSortBy.ts\<close>: the sort-key store
  (\<^verbatim>\<open>createSortKeysStore\<close>), the recursive row sorter (\<^verbatim>\<open>getSortedRows\<close>) and
  the header hook of the plugin (\<^verbatim>\<open>addSortBy\<close>).
\<close>

subsection \<open>Sort keys\<close>

text \<open>\<^verbatim>\<open>order: 'asc' | 'desc'\<close> and \<^verbatim>\<open>interface SortKey { id; order }\<close>.\<close>

datatype sort_order = asc | desc

record SortKey =
  id' :: string
  order' :: sort_order

text \<open>\<^verbatim>\<open>interface ToggleOptions { multiSort?: boolean }\<close>; an absent field is \<open>None\<close>.\<close>

record ToggleOptions =
  multiSort :: "bool option"

text \<open>
  \<^verbatim>\<open>Array.prototype.findIndex\<close>: the index of the first element that satisfies the
  predicate, \<open>-1\<close> when there is none.
\<close>

fun findIndex :: "('a \<Rightarrow> bool) \<Rightarrow> 'a list \<Rightarrow> int" where
  "findIndex p [] = - 1"
| "findIndex p (x # xs) =
     (if p x then 0
      else (let i = findIndex p xs in if i = - 1 then - 1 else i + 1))"

text \<open>
  The store holds the current key sequence; \<^verbatim>\<open>update\<close> replaces it by the value of
  the callback, so \<^verbatim>\<open>toggleId\<close> and \<^verbatim>\<open>clearId\<close> are functions from the old sequence
  to the new one. \<^verbatim>\<open>slice(0, keyIdx)\<close> is \<open>take\<close> and \<^verbatim>\<open>slice(keyIdx + 1)\<close> is
  \<open>drop\<close>; both are applied only with \<open>0 \<le> keyIdx < length\<close>.
\<close>

definition toggleId :: "string \<Rightarrow> ToggleOptions \<Rightarrow> SortKey list \<Rightarrow> SortKey list" where
  "toggleId i options sortKeys =
     (let multiSortV = (case multiSort options of None \<Rightarrow> True | Some b \<Rightarrow> b);
          keyIdx = findIndex (\<lambda>key. id' key = i) sortKeys
      in if \<not> multiSortV then
           (if keyIdx = - 1 then [\<lparr>id' = i, order' = asc\<rparr>]
            else if order' (sortKeys ! nat keyIdx) = asc then [\<lparr>id' = i, order' = desc\<rparr>]
            else [])
         else if keyIdx = - 1 then sortKeys @ [\<lparr>id' = i, order' = asc\<rparr>]
         else if order' (sortKeys ! nat keyIdx) = asc then
           take (nat keyIdx) sortKeys @ [\<lparr>id' = i, order' = desc\<rparr>]
             @ drop (nat (keyIdx + 1)) sortKeys
         else take (nat keyIdx) sortKeys @ drop (nat (keyIdx + 1)) sortKeys)"

definition clearId :: "string \<Rightarrow> SortKey list \<Rightarrow> SortKey list" where
  "clearId i sortKeys =
     (let keyIdx = findIndex (\<lambda>key. id' key = i) sortKeys
      in if keyIdx = - 1 then sortKeys
         else take (nat keyIdx) sortKeys @ drop (nat (keyIdx + 1)) sortKeys)"

text \<open>A call of the store from outside: one of its two mutators.\<close>

datatype store_call = ToggleId string ToggleOptions | ClearId string

fun apply_call :: "SortKey list \<Rightarrow> store_call \<Rightarrow> SortKey list" where
  "apply_call sortKeys (ToggleId i options) = toggleId i options sortKeys"
| "apply_call sortKeys (ClearId i) = clearId i sortKeys"

definition apply_calls :: "SortKey list \<Rightarrow> store_call list \<Rightarrow> SortKey list" where
  "apply_calls sortKeys calls = foldl apply_call sortKeys calls"

subsection \<open>Column options and the header hook\<close>

text \<open>
  JavaScript values as far as the sorter and the comparison helper look at them:
  strings, numbers, arrays, \<^verbatim>\<open>undefined\<close> and the plain object. Numbers are modelled
  by integers (the numbers that a double holds exactly, up to \<open>2\<^sup>5\<^sup>3\<close>): fractions,
  infinities and \<^verbatim>\<open>NaN\<close> are not values of the model.
\<close>

datatype jsvalue =
  JString string | JNumber int | JArray "jsvalue list" | JUndefined | JObject

text \<open>\<^verbatim>\<open>interface SortByColumnOptions\<close>: three optional fields.\<close>

record SortByColumnOptions =
  disable :: "bool option"
  getSortValue :: "(jsvalue \<Rightarrow> jsvalue) option"
  invert :: "bool option"

type_synonym column_options = "string \<rightharpoonup> SortByColumnOptions"

text \<open>
  \<^verbatim>\<open>disabledSortIds\<close>: the ids of the entries of \<^verbatim>\<open>columnOptions\<close> whose
  \<^verbatim>\<open>disable\<close> is \<^verbatim>\<open>true\<close>. Only membership (\<^verbatim>\<open>includes\<close>) is ever asked.
\<close>

definition disabledSortIds :: "column_options \<Rightarrow> string set" where
  "disabledSortIds columnOptions =
     {columnId. case columnOptions columnId of
                  None \<Rightarrow> False
                | Some option \<Rightarrow> disable option = Some True}"

text \<open>The header cell as the hook reads it: its \<^verbatim>\<open>id\<close> and \<^verbatim>\<open>isData\<close>.\<close>

record HeaderCell =
  hid :: string
  isData :: bool

text \<open>
  \<^verbatim>\<open>SortByConfig\<close> as \<^verbatim>\<open>addSortBy\<close> reads it for the hook: \<^verbatim>\<open>disableMultiSort\<close>
  and \<^verbatim>\<open>isMultiSortEvent\<close>, a predicate on the triggering event.
\<close>

record 'e SortByConfig =
  disableMultiSort :: bool
  isMultiSortEvent :: "'e \<Rightarrow> bool"

text \<open>
  The \<^verbatim>\<open>toggle\<close> and \<^verbatim>\<open>clear\<close> props of the hook \<^verbatim>\<open>'thead.tr.th'\<close>, as functions
  on the key sequence of the store.
\<close>

definition th_toggle ::
  "'e SortByConfig \<Rightarrow> column_options \<Rightarrow> HeaderCell \<Rightarrow> 'e \<Rightarrow> SortKey list \<Rightarrow> SortKey list" where
  "th_toggle config columnOptions cell event sortKeys =
     (let disabled = (hid cell \<in> disabledSortIds columnOptions)
      in if \<not> isData cell then sortKeys
         else if disabled then sortKeys
         else toggleId (hid cell)
                \<lparr>multiSort = Some (if disableMultiSort config then False
                                    else isMultiSortEvent config event)\<rparr>
                sortKeys)"

definition th_clear ::
  "column_options \<Rightarrow> HeaderCell \<Rightarrow> SortKey list \<Rightarrow> SortKey list" where
  "th_clear columnOptions cell sortKeys =
     (if \<not> isData cell then sortKeys
      else if hid cell \<in> disabledSortIds columnOptions then sortKeys
      else clearId (hid cell) sortKeys)"

subsection \<open>Rows and cells\<close>

text \<open>
  The only error the sorter can raise: the \<^verbatim>\<open>TypeError\<close> of reading a property of
  \<^verbatim>\<open>undefined\<close>.
\<close>

datatype error = TypeError

text \<open>The result of \<^verbatim>\<open>typeof\<close> on a value.\<close>

fun typeof :: "jsvalue \<Rightarrow> string" where
  "typeof (JString s) = ''string''"
| "typeof (JNumber n) = ''number''"
| "typeof (JArray vs) = ''object''"
| "typeof JUndefined = ''undefined''"
| "typeof JObject = ''object''"

text \<open>
  Modelled from the spec: the cell classes of \<^verbatim>\<open>$lib/bodyCells\<close> are not part of
  the source at hand. A cell is a \<^verbatim>\<open>DataBodyCell\<close>, which carries a value, or a cell of
  another kind, which carries none; every cell has the \<^verbatim>\<open>id\<close> of its column. Reading
  \<^verbatim>\<open>.value\<close> of a cell that has no such field gives \<^verbatim>\<open>undefined\<close>.
\<close>

datatype BodyCell = DataBodyCell string jsvalue | DisplayBodyCell string

fun cell_id :: "BodyCell \<Rightarrow> string" where
  "cell_id (DataBodyCell i v) = i"
| "cell_id (DisplayBodyCell i) = i"

fun cell_value :: "BodyCell \<Rightarrow> jsvalue" where
  "cell_value (DataBodyCell i v) = v"
| "cell_value (DisplayBodyCell i) = JUndefined"

text \<open>
  Modelled from the spec: \<^verbatim>\<open>BodyRow\<close> of \<^verbatim>\<open>$lib/bodyRows\<close> is not part of the source
  at hand. The sorter reads two fields of a row: \<^verbatim>\<open>cellForId\<close>, from column ids to
  cells, and the optional \<^verbatim>\<open>subRows\<close>; \<open>others\<close> stands for all remaining fields.
\<close>

datatype 'a BodyRow =
  BodyRow (others: 'a) (cellForId: "string \<Rightarrow> BodyCell option")
    (subRows: "'a BodyRow list option")

text \<open>
  Modelled from the spec: \<^verbatim>\<open>getCloned\<close> of \<^verbatim>\<open>$lib/utils/clone\<close> is not part of the
  source at hand. \<^verbatim>\<open>getCloned(row, {subRows: sortedSubRows})\<close> is a new row whose
  \<^verbatim>\<open>subRows\<close> is the given sequence and whose other fields are those of \<^verbatim>\<open>row\<close>.
\<close>

definition getCloned :: "'a BodyRow \<Rightarrow> 'a BodyRow list \<Rightarrow> 'a BodyRow" where
  "getCloned source sortedSubRows =
     BodyRow (others source) (cellForId source) (Some sortedSubRows)"

subsection \<open>The comparator of getSortedRows\<close>

text \<open>
  The arrow function passed to \<^verbatim>\<open>sort\<close> (lines 107 to 144). The helper
  \<^verbatim>\<open>compare\<close> of \<^verbatim>\<open>$lib/utils/compare\<close> is not part of the source at hand and is a
  parameter. The loop over \<^verbatim>\<open>sortKeys\<close> is the recursion over the list. The statements
  keep their order: \<^verbatim>\<open>cellA.id\<close> is read (line 115) before the test
  \<^verbatim>\<open>cellA instanceof DataBodyCell\<close> (line 116), so a missing \<^verbatim>\<open>cellA\<close> raises;
  a missing \<^verbatim>\<open>cellB\<close> raises at \<^verbatim>\<open>cellB.value\<close> (line 120).
\<close>

fun compareFn ::
  "(jsvalue \<Rightarrow> jsvalue \<Rightarrow> int) \<Rightarrow> SortKey list \<Rightarrow> column_options \<Rightarrow>
   'a BodyRow \<Rightarrow> 'a BodyRow \<Rightarrow> error + int" where
  "compareFn compare [] columnOptions a b = Inr 0"
| "compareFn compare (key # sortKeys) columnOptions a b =
     (let invertV = (case columnOptions (id' key) of
                       None \<Rightarrow> False
                     | Some option \<Rightarrow> (case invert option of None \<Rightarrow> False | Some v \<Rightarrow> v))
      in case cellForId a (id' key) of
           None \<Rightarrow> Inl TypeError
         | Some cellA \<Rightarrow>
             (let getSortValueV = (case columnOptions (cell_id cellA) of
                                     None \<Rightarrow> None
                                   | Some option \<Rightarrow> getSortValue option)
              in case cellA of
                   DisplayBodyCell _ \<Rightarrow> Inr 0
                 | DataBodyCell _ valueA \<Rightarrow>
                     (case cellForId b (id' key) of
                        None \<Rightarrow> Inl TypeError
                      | Some cellB \<Rightarrow>
                          (let valueB = cell_value cellB;
                               ord = (case getSortValueV of
                                        Some g \<Rightarrow> compare (g valueA) (g valueB)
                                      | None \<Rightarrow>
                                          if typeof valueA = ''string'' \<or> typeof valueA = ''number''
                                          then compare valueA valueB
                                          else 0)
                           in if ord \<noteq> 0 then
                                Inr (ord * ((if order' key = desc then - 1 else 1)
                                            * (if invertV then - 1 else 1)))
                              else compareFn compare sortKeys columnOptions a b))))"

subsection \<open>Array.prototype.sort\<close>

text \<open>
  \<^verbatim>\<open>Array.prototype.sort(comparefn)\<close> is the language's own sort. ECMAScript fixes
  its result, the stable sorted order, only when \<^verbatim>\<open>comparefn\<close> is a consistent
  comparator for the elements, and leaves the order to the implementation otherwise.
  The comparator of \<^verbatim>\<open>getSortedRows\<close> is not always one, so the sort is modelled as
  the engine runs it: the sort of V8 (Node.js, Chromium), transcribed from
  \<^verbatim>\<open>third_party/v8/builtins/array-sort.tq\<close>.

  An array of fewer than two elements is returned without a call of \<^verbatim>\<open>comparefn\<close>.
  Otherwise \<^verbatim>\<open>CountAndMakeRun\<close> takes the run at the start of the array: it asks
  \<^verbatim>\<open>comparefn(elementLow, elementHigh)\<close> for the second and the first element, the
  run is descending when the answer is negative, and the run goes on as long as
  \<^verbatim>\<open>comparefn(currentElement, previousElement)\<close> answers the same way (negative in
  a descending run, not negative otherwise); a descending run is reversed.
  \<^verbatim>\<open>BinaryInsertionSort\<close> then puts every remaining element \<^verbatim>\<open>pivot\<close> into the
  sorted part in front of it, at the index \<^verbatim>\<open>left\<close> that its binary search with
  \<^verbatim>\<open>comparefn(pivot, workArray[mid])\<close> ends on. An exception of \<^verbatim>\<open>comparefn\<close>
  ends the sort.

  For arrays of fewer than 64 elements this is the whole of the engine's algorithm (the
  minimal run length is then the length of the array). A longer array is cut by the
  engine into several runs that are merged; here it is sorted by the same insertion,
  which gives the same array whenever \<^verbatim>\<open>comparefn\<close> is a consistent comparator:
  the stable sorted order (lemma \<open>Array_sort_sorted\<close>). The elements sorted here are
  row objects, so the engine's treatment of \<^verbatim>\<open>undefined\<close> elements and of holes
  does not apply.
\<close>

text \<open>
  The binary search of \<^verbatim>\<open>BinaryInsertionSort\<close>, between the indexes \<open>left\<close> and
  \<open>right\<close> of the sorted part. It is called with \<open>right\<close> at most the length of
  \<open>workArray\<close>, so \<open>workArray ! mid\<close> is an element of it.
\<close>

function binarySearch ::
  "('a \<Rightarrow> 'a \<Rightarrow> error + int) \<Rightarrow> 'a \<Rightarrow> 'a list \<Rightarrow> nat \<Rightarrow> nat \<Rightarrow> error + nat" where
  "binarySearch comparefn pivot workArray left right =
     (if left < right then
        (let mid = left + (right - left) div 2
         in case comparefn pivot (workArray ! mid) of
              Inl e \<Rightarrow> Inl e
            | Inr ord \<Rightarrow>
                if ord < 0 then binarySearch comparefn pivot workArray left mid
                else binarySearch comparefn pivot workArray (mid + 1) right)
      else Inr left)"
  by pat_completeness auto
termination
  by (relation "measure (\<lambda>(comparefn, pivot, workArray, left, right). right - left)") auto

declare binarySearch.simps [simp del]

text \<open>
  The loop of \<^verbatim>\<open>BinaryInsertionSort\<close> over \<^verbatim>\<open>start\<close>: \<open>sortedPart\<close> is the work
  array below \<^verbatim>\<open>start\<close>, the second list is the work array from \<^verbatim>\<open>start\<close> on.
\<close>

fun binaryInsertionSort ::
  "('a \<Rightarrow> 'a \<Rightarrow> error + int) \<Rightarrow> 'a list \<Rightarrow> 'a list \<Rightarrow> error + 'a list" where
  "binaryInsertionSort comparefn sortedPart [] = Inr sortedPart"
| "binaryInsertionSort comparefn sortedPart (pivot # rest) =
     (case binarySearch comparefn pivot sortedPart 0 (length sortedPart) of
        Inl e \<Rightarrow> Inl e
      | Inr left \<Rightarrow>
          binaryInsertionSort comparefn
            (take left sortedPart @ pivot # drop left sortedPart) rest)"

text \<open>
  The loop of \<^verbatim>\<open>CountAndMakeRun\<close> from the third element on: the number of further
  elements that belong to the run.
\<close>

fun countRun ::
  "('a \<Rightarrow> 'a \<Rightarrow> error + int) \<Rightarrow> bool \<Rightarrow> 'a \<Rightarrow> 'a list \<Rightarrow> error + nat" where
  "countRun comparefn isDescending previousElement [] = Inr 0"
| "countRun comparefn isDescending previousElement (currentElement # rest) =
     (case comparefn currentElement previousElement of
        Inl e \<Rightarrow> Inl e
      | Inr ord \<Rightarrow>
          if (if isDescending then 0 \<le> ord else ord < 0) then Inr 0
          else (case countRun comparefn isDescending currentElement rest of
                  Inl e \<Rightarrow> Inl e
                | Inr n \<Rightarrow> Inr (Suc n)))"

fun Array_sort :: "('a \<Rightarrow> 'a \<Rightarrow> error + int) \<Rightarrow> 'a list \<Rightarrow> error + 'a list" where
  "Array_sort comparefn [] = Inr []"
| "Array_sort comparefn [x] = Inr [x]"
| "Array_sort comparefn (elementHigh # elementLow # rest) =
     (case comparefn elementLow elementHigh of
        Inl e \<Rightarrow> Inl e
      | Inr ord \<Rightarrow>
          (let isDescending = (ord < 0)
           in case countRun comparefn isDescending elementLow rest of
                Inl e \<Rightarrow> Inl e
              | Inr n \<Rightarrow>
                  (let runLength = n + 2;
                       run = take runLength (elementHigh # elementLow # rest);
                       remaining = drop runLength (elementHigh # elementLow # rest)
                   in binaryInsertionSort comparefn
                        (if isDescending then rev run else run) remaining)))"

text \<open>The sorted array holds the elements of the input, each as often as the input.\<close>

lemma binaryInsertionSort_mset:
  "binaryInsertionSort f sortedPart rest = Inr ys \<Longrightarrow> mset ys = mset sortedPart + mset rest"
proof (induction rest arbitrary: sortedPart)
  case Nil
  then show ?case by simp
next
  case (Cons pivot rest)
  from Cons.prems obtain left where
    "binaryInsertionSort f (take left sortedPart @ pivot # drop left sortedPart) rest = Inr ys"
    by (auto split: sum.splits)
  from Cons.IH [OF this]
  have "mset ys =
        add_mset pivot (mset (take left sortedPart) + mset (drop left sortedPart)) + mset rest"
    by simp
  moreover have "mset (take left sortedPart) + mset (drop left sortedPart) = mset sortedPart"
    by (metis append_take_drop_id mset_append)
  ultimately show ?case by simp
qed

lemma Array_sort_Inr:
  assumes "Array_sort f (h # l # rest) = Inr ys"
  shows "\<exists>ord n. f l h = Inr ord \<and> countRun f (ord < 0) l rest = Inr n \<and>
           binaryInsertionSort f
             (if ord < 0 then rev (take (Suc (Suc n)) (h # l # rest))
              else take (Suc (Suc n)) (h # l # rest))
             (drop (Suc (Suc n)) (h # l # rest)) = Inr ys"
  using assms
  by (auto simp: Let_def split: sum.splits simp del: take_Suc_Cons drop_Suc_Cons)

lemma Array_sort_mset: "Array_sort f xs = Inr ys \<Longrightarrow> mset ys = mset xs"
proof (induction f xs rule: Array_sort.induct)
  case (1 f)
  then show ?case by simp
next
  case (2 f x)
  then show ?case by auto
next
  case (3 f h l rest)
  from Array_sort_Inr [OF 3] obtain ord :: int and n where
    b: "binaryInsertionSort f
          (if ord < 0 then rev (take (Suc (Suc n)) (h # l # rest))
           else take (Suc (Suc n)) (h # l # rest))
          (drop (Suc (Suc n)) (h # l # rest)) = Inr ys"
    by blast
  have "mset ys =
        mset (take (Suc (Suc n)) (h # l # rest)) + mset (drop (Suc (Suc n)) (h # l # rest))"
    using binaryInsertionSort_mset [OF b] by (simp split: if_splits)
  also have "\<dots> = mset (h # l # rest)"
    by (metis append_take_drop_id mset_append)
  finally show ?case .
qed

lemma Array_sort_size:
  assumes "Array_sort f xs = Inr ys"
  shows "size_list g ys = size_list g xs"
proof -
  have m: "mset ys = mset xs" using assms by (rule Array_sort_mset)
  have "sum_list (map g ys) = sum_mset (image_mset g (mset ys))"
    by (metis mset_map sum_mset_sum_list)
  also have "\<dots> = sum_list (map g xs)"
    unfolding m by (metis mset_map sum_mset_sum_list)
  finally have "sum_list (map g ys) = sum_list (map g xs)" .
  moreover have "length ys = length xs" using m by (metis size_mset)
  ultimately show ?thesis by (simp add: size_list_conv_sum_list)
qed

subsection \<open>getSortedRows\<close>

text \<open>
  \<^verbatim>\<open>getSortedRows(rows, sortKeys, columnOptions)\<close>: the copy of \<^verbatim>\<open>rows\<close> is sorted
  with the comparator, then the loop of lines 145 to 152 (\<open>sortSubRows\<close>) replaces
  every row that has \<^verbatim>\<open>subRows\<close> by its clone with the sub-rows sorted by the same
  function. An exception raised anywhere ends the whole call.
\<close>

function getSortedRows ::
  "(jsvalue \<Rightarrow> jsvalue \<Rightarrow> int) \<Rightarrow> 'a BodyRow list \<Rightarrow> SortKey list \<Rightarrow> column_options \<Rightarrow>
   error + 'a BodyRow list"
  and sortSubRows ::
  "(jsvalue \<Rightarrow> jsvalue \<Rightarrow> int) \<Rightarrow> 'a BodyRow list \<Rightarrow> SortKey list \<Rightarrow> column_options \<Rightarrow>
   error + 'a BodyRow list"
where
  "getSortedRows compare rows sortKeys columnOptions =
     (case Array_sort (compareFn compare sortKeys columnOptions) rows of
        Inl e \<Rightarrow> Inl e
      | Inr sortedRows \<Rightarrow> sortSubRows compare sortedRows sortKeys columnOptions)"
| "sortSubRows compare [] sortKeys columnOptions = Inr []"
| "sortSubRows compare (row # rest) sortKeys columnOptions =
     (case subRows row of
        None \<Rightarrow>
          (case sortSubRows compare rest sortKeys columnOptions of
             Inl e \<Rightarrow> Inl e
           | Inr rest' \<Rightarrow> Inr (row # rest'))
      | Some sub \<Rightarrow>
          (case getSortedRows compare sub sortKeys columnOptions of
             Inl e \<Rightarrow> Inl e
           | Inr sortedSubRows \<Rightarrow>
               (case sortSubRows compare rest sortKeys columnOptions of
                  Inl e \<Rightarrow> Inl e
                | Inr rest' \<Rightarrow> Inr (getCloned row sortedSubRows # rest'))))"
  by pat_completeness auto
termination
proof (relation "measure (\<lambda>x. case x of
          Inl (c, rows, ks, os) \<Rightarrow> 2 * size_list size rows + 1
        | Inr (c, rows, ks, os) \<Rightarrow> 2 * size_list size rows)", goal_cases)
  case 1
  show ?case by simp
next
  case (2 compare rows sortKeys columnOptions sortedRows)
  then show ?case by (simp add: Array_sort_size)
next
  case (3 compare row rest sortKeys columnOptions)
  show ?case by simp
next
  case (4 compare row rest sortKeys columnOptions sub)
  then show ?case by (cases row) simp
next
  case (5 compare row rest sortKeys columnOptions sub sortedSubRows)
  show ?case by simp
qed

declare getSortedRows.simps [simp del]

subsection \<open>The comparison helper\<close>

text \<open>
  The operator \<^verbatim>\<open><\<close> of the language on the values of the model. Both operands
  are made primitive: an array becomes the string of its elements joined by commas,
  with \<^verbatim>\<open>undefined\<close> elements empty, and the plain object becomes
  \<^verbatim>\<open>[object Object]\<close>. Two strings compare by character code, a proper prefix
  first. Otherwise both operands are converted to numbers and compared, and a
  comparison with \<^verbatim>\<open>NaN\<close> is false.

  Numbers are modelled by integers. A number prints in decimal digits (as the language
  prints the integers below \<open>10\<^sup>2\<^sup>1\<close>), and a string converts to the integer that it
  writes in decimal digits, with an optional sign and surrounding white space, the empty
  string to 0. \<open>None\<close> stands for \<^verbatim>\<open>NaN\<close>: the result for \<^verbatim>\<open>undefined\<close> and for
  every other string, among them those that the language reads as a fraction, with an
  exponent, in another base or as \<^verbatim>\<open>Infinity\<close>.
\<close>

function digits_of :: "nat \<Rightarrow> string" where
  "digits_of n =
     (if n < 10 then [''0123456789'' ! n]
      else digits_of (n div 10) @ [''0123456789'' ! (n mod 10)])"
  by pat_completeness auto
termination
  by (relation "measure (\<lambda>n. n)") auto

declare digits_of.simps [simp del]

definition Number_toString :: "int \<Rightarrow> string" where
  "Number_toString n = (if n < 0 then CHR ''-'' # digits_of (nat (- n)) else digits_of (nat n))"

fun join :: "string list \<Rightarrow> string" where
  "join [] = []"
| "join [s] = s"
| "join (s # t # ss) = s @ CHR '','' # join (t # ss)"

fun ToString :: "jsvalue \<Rightarrow> string" where
  "ToString (JString s) = s"
| "ToString (JNumber n) = Number_toString n"
| "ToString (JArray vs) =
     join (map (\<lambda>v. if v = JUndefined then [] else ToString v) vs)"
| "ToString JUndefined = ''undefined''"
| "ToString JObject = ''[object Object]''"

definition isWhiteSpace :: "char \<Rightarrow> bool" where
  "isWhiteSpace c \<longleftrightarrow> (of_char c :: nat) \<in> {9, 10, 11, 12, 13, 32, 160}"

definition trim :: "string \<Rightarrow> string" where
  "trim s = rev (dropWhile isWhiteSpace (rev (dropWhile isWhiteSpace s)))"

fun parseDigits :: "nat \<Rightarrow> string \<Rightarrow> nat option" where
  "parseDigits acc [] = Some acc"
| "parseDigits acc (c # cs) =
     (if 48 \<le> (of_char c :: nat) \<and> (of_char c :: nat) \<le> 57
      then parseDigits (10 * acc + (of_char c - 48)) cs
      else None)"

definition StringToNumber :: "string \<Rightarrow> int option" where
  "StringToNumber s =
     (case trim s of
        [] \<Rightarrow> Some 0
      | c # cs \<Rightarrow>
          if c = CHR ''-'' \<and> cs \<noteq> [] then map_option (\<lambda>n. - int n) (parseDigits 0 cs)
          else if c = CHR ''+'' \<and> cs \<noteq> [] then map_option int (parseDigits 0 cs)
          else map_option int (parseDigits 0 (c # cs)))"

datatype primitive = PString string | PNumber int | PUndefined

fun ToPrimitive :: "jsvalue \<Rightarrow> primitive" where
  "ToPrimitive (JString s) = PString s"
| "ToPrimitive (JNumber n) = PNumber n"
| "ToPrimitive (JArray vs) = PString (ToString (JArray vs))"
| "ToPrimitive JUndefined = PUndefined"
| "ToPrimitive JObject = PString (ToString JObject)"

fun ToNumber :: "primitive \<Rightarrow> int option" where
  "ToNumber (PString s) = StringToNumber s"
| "ToNumber (PNumber n) = Some n"
| "ToNumber PUndefined = None"

fun string_less :: "string \<Rightarrow> string \<Rightarrow> bool" where
  "string_less [] [] \<longleftrightarrow> False"
| "string_less [] (d # t) \<longleftrightarrow> True"
| "string_less (c # s) [] \<longleftrightarrow> False"
| "string_less (c # s) (d # t) \<longleftrightarrow>
     (if (of_char c :: nat) < of_char d then True
      else if (of_char d :: nat) < of_char c then False
      else string_less s t)"

definition IsLessThan :: "jsvalue \<Rightarrow> jsvalue \<Rightarrow> bool" where
  "IsLessThan a b =
     (case (ToPrimitive a, ToPrimitive b) of
        (PString s, PString t) \<Rightarrow> string_less s t
      | (px, py) \<Rightarrow>
          (case (ToNumber px, ToNumber py) of
             (Some nx, Some ny) \<Rightarrow> nx < ny
           | _ \<Rightarrow> False))"

text \<open>
  Modelled from the spec: the helper \<^verbatim>\<open>compare\<close> of \<^verbatim>\<open>$lib/utils/compare\<close> is
  not part of the source at hand; the examples use it as the library defines it.
  \<^verbatim>\<open>compare(a, b)\<close> is \<^verbatim>\<open>compareArray(a, b)\<close> when both are arrays, \<^verbatim>\<open>a - b\<close>
  when both are numbers, and \<^verbatim>\<open>a < b ? -1 : a > b ? 1 : 0\<close> otherwise.
  \<^verbatim>\<open>compareArray(a, b)\<close> is the first \<^verbatim>\<open>compare(a[i], b[i])\<close> that is not 0,
  over the indexes below both lengths, and 0 when there is none: a proper prefix ties
  with the longer array.
\<close>

fun compare_spec :: "jsvalue \<Rightarrow> jsvalue \<Rightarrow> int"
  and compareArray :: "jsvalue list \<Rightarrow> jsvalue list \<Rightarrow> int" where
  "compare_spec a b =
     (case (a, b) of
        (JArray as, JArray bs) \<Rightarrow> compareArray as bs
      | (JNumber x, JNumber y) \<Rightarrow> x - y
      | _ \<Rightarrow> if IsLessThan a b then - 1 else if IsLessThan b a then 1 else 0)"
| "compareArray [] bs = 0"
| "compareArray (x # as) [] = 0"
| "compareArray (x # as) (y # bs) =
     (let ord = compare_spec x y in if ord \<noteq> 0 then ord else compareArray as bs)"

text \<open>The equations that evaluate \<^verbatim>\<open>compare\<close> on given values.\<close>

lemmas compare_eval =
  Number_toString_def digits_of.simps IsLessThan_def StringToNumber_def trim_def
  isWhiteSpace_def

subsection \<open>Example data\<close>

text \<open>
  Example data: a row whose cells are all data cells; the rows of a small table; a row
  with two sub-rows next to a leaf row; two rows whose first column is an icon cell; and
  rows whose column \<open>score\<close> holds a number in one row and an array in another.
\<close>

definition dataRow :: "'a \<Rightarrow> (string \<times> jsvalue) list \<Rightarrow> 'a BodyRow list option \<Rightarrow> 'a BodyRow" where
  "dataRow x vals sub = BodyRow x (map_of (map (\<lambda>(k, v). (k, DataBodyCell k v)) vals)) sub"

definition people :: "nat BodyRow list" where
  "people =
     [dataRow 0 [(''name'', JString ''Bob''), (''age'', JNumber 30)] None,
      dataRow 1 [(''name'', JString ''Amy''), (''age'', JNumber 30)] None,
      dataRow 2 [(''name'', JString ''Amy''), (''age'', JNumber 25)] None]"

definition family :: "nat BodyRow list" where
  "family =
     [dataRow 0 [(''v'', JNumber 3)]
        (Some [dataRow 1 [(''v'', JNumber 2)] None, dataRow 2 [(''v'', JNumber 1)] None]),
      dataRow 3 [(''v'', JNumber 0)] None]"

definition family_sorted :: "nat BodyRow list" where
  "family_sorted =
     [dataRow 3 [(''v'', JNumber 0)] None,
      dataRow 0 [(''v'', JNumber 3)]
        (Some [dataRow 2 [(''v'', JNumber 1)] None, dataRow 1 [(''v'', JNumber 2)] None])]"

definition iconRow :: "nat \<Rightarrow> int \<Rightarrow> nat BodyRow" where
  "iconRow x age =
     BodyRow x [''icon'' \<mapsto> DisplayBodyCell ''icon'', ''age'' \<mapsto> DataBodyCell ''age'' (JNumber age)]
       None"

definition mixedPair :: "nat BodyRow list" where
  "mixedPair =
     [dataRow 0 [(''score'', JNumber 1), (''rank'', JNumber 2)] None,
      dataRow 1 [(''score'', JArray [JNumber 2]), (''rank'', JNumber 1)] None]"

definition mixedTriple :: "nat BodyRow list" where
  "mixedTriple =
     [dataRow 0 [(''score'', JArray [JNumber 9]), (''rank'', JNumber 1)] None,
      dataRow 1 [(''score'', JNumber 5), (''rank'', JNumber 2)] None,
      dataRow 2 [(''score'', JArray [JNumber 9]), (''rank'', JNumber 1)] None]"

definition scoreRank :: "SortKey list" where
  "scoreRank = [\<lparr>id' = ''score'', order' = asc\<rparr>, \<lparr>id' = ''rank'', order' = asc\<rparr>]"

subsection \<open>Notions for the statements about the sorter\<close>

text \<open>
  What one pass of the loop body makes of a row: the row itself when it has no
  \<^verbatim>\<open>subRows\<close>, its clone with the sorted sub-rows otherwise.
\<close>

definition sub_sorted ::
  "(jsvalue \<Rightarrow> jsvalue \<Rightarrow> int) \<Rightarrow> SortKey list \<Rightarrow> column_options \<Rightarrow>
   'a BodyRow \<Rightarrow> 'a BodyRow \<Rightarrow> bool" where
  "sub_sorted compare sortKeys columnOptions row row' \<longleftrightarrow>
     (case subRows row of
        None \<Rightarrow> row' = row
      | Some sub \<Rightarrow>
          (case getSortedRows compare sub sortKeys columnOptions of
             Inl e \<Rightarrow> False
           | Inr sortedSubRows \<Rightarrow> row' = getCloned row sortedSubRows))"

text \<open>\<open>every_level P rows\<close>: \<open>P\<close> holds of the sibling rows of every level of the forest.\<close>

lemma subRows_size: "subRows row = Some sub \<Longrightarrow> size_list size sub < size row"
  by (cases row) simp

function every_level :: "('a BodyRow list \<Rightarrow> bool) \<Rightarrow> 'a BodyRow list \<Rightarrow> bool" where
  "every_level P rows \<longleftrightarrow>
     P rows \<and>
     (\<forall>row\<in>set rows. case subRows row of None \<Rightarrow> True | Some sub \<Rightarrow> every_level P sub)"
  by pat_completeness auto
termination
proof (relation "measure (\<lambda>(P, rows). size_list size rows)", goal_cases)
  case 1
  show ?case by simp
next
  case (2 P rows row sub)
  have "size row \<le> size_list size rows"
    using 2(1) by (simp add: size_list_estimation')
  with subRows_size [OF 2(2)] show ?case by simp
qed

declare every_level.simps [simp del]

text \<open>
  The answers of a comparator \<open>f\<close> on a pair, in the notation of ECMAScript:
  \<open>a <\<^sub>C\<^sub>F b\<close> when \<open>f a b\<close> is negative, \<open>a =\<^sub>C\<^sub>F b\<close> when it is 0 and
  \<open>a >\<^sub>C\<^sub>F b\<close> when it is positive.
\<close>

definition lessCF :: "('a \<Rightarrow> 'a \<Rightarrow> error + int) \<Rightarrow> 'a \<Rightarrow> 'a \<Rightarrow> bool" where
  "lessCF f a b \<longleftrightarrow> (case f a b of Inl e \<Rightarrow> False | Inr n \<Rightarrow> n < 0)"

definition equalCF :: "('a \<Rightarrow> 'a \<Rightarrow> error + int) \<Rightarrow> 'a \<Rightarrow> 'a \<Rightarrow> bool" where
  "equalCF f a b \<longleftrightarrow> (case f a b of Inl e \<Rightarrow> False | Inr n \<Rightarrow> n = 0)"

definition greaterCF :: "('a \<Rightarrow> 'a \<Rightarrow> error + int) \<Rightarrow> 'a \<Rightarrow> 'a \<Rightarrow> bool" where
  "greaterCF f a b \<longleftrightarrow> (case f a b of Inl e \<Rightarrow> False | Inr n \<Rightarrow> 0 < n)"

text \<open>
  \<open>f\<close> is a consistent comparator for the elements of \<open>xs\<close>, as ECMAScript defines
  it: \<open>f\<close> answers every pair with a number, every element ties with itself, ties are
  symmetric, and each of \<open>=\<^sub>C\<^sub>F\<close>, \<open><\<^sub>C\<^sub>F\<close> and \<open>>\<^sub>C\<^sub>F\<close> is transitive. (That
  the answer to a pair is always the same and that the call changes nothing hold of
  every function of the model.)
\<close>

definition consistent_on :: "('a \<Rightarrow> 'a \<Rightarrow> error + int) \<Rightarrow> 'a list \<Rightarrow> bool" where
  "consistent_on f xs \<longleftrightarrow>
     (\<forall>a\<in>set xs. \<forall>b\<in>set xs. lessCF f a b \<or> equalCF f a b \<or> greaterCF f a b) \<and>
     (\<forall>a\<in>set xs. equalCF f a a) \<and>
     (\<forall>a\<in>set xs. \<forall>b\<in>set xs. equalCF f a b \<longrightarrow> equalCF f b a) \<and>
     (\<forall>a\<in>set xs. \<forall>b\<in>set xs. \<forall>c\<in>set xs. equalCF f a b \<and> equalCF f b c \<longrightarrow> equalCF f a c) \<and>
     (\<forall>a\<in>set xs. \<forall>b\<in>set xs. \<forall>c\<in>set xs. lessCF f a b \<and> lessCF f b c \<longrightarrow> lessCF f a c) \<and>
     (\<forall>a\<in>set xs. \<forall>b\<in>set xs. \<forall>c\<in>set xs.
        greaterCF f a b \<and> greaterCF f b c \<longrightarrow> greaterCF f a c)"

text \<open>
  The stable sorted order on elements paired with their input positions: \<open>u\<close> comes
  before \<open>v\<close> when the comparator puts it first, or ties them and \<open>u\<close> came first in
  the input.
\<close>

definition prec :: "('a \<Rightarrow> 'a \<Rightarrow> error + int) \<Rightarrow> nat \<times> 'a \<Rightarrow> nat \<times> 'a \<Rightarrow> bool" where
  "prec f u v \<longleftrightarrow>
     lessCF f (snd u) (snd v) \<or> (equalCF f (snd u) (snd v) \<and> fst u < fst v)"

text \<open>
  No element is followed by one that the comparator puts before it: the answer to
  (later, earlier), the pair that the sort asks about, is not negative.
\<close>

fun in_order :: "('a \<Rightarrow> 'a \<Rightarrow> error + int) \<Rightarrow> 'a list \<Rightarrow> bool" where
  "in_order f [] \<longleftrightarrow> True"
| "in_order f [x] \<longleftrightarrow> True"
| "in_order f (x # y # ys) \<longleftrightarrow>
     (case f y x of Inl e \<Rightarrow> False | Inr n \<Rightarrow> 0 \<le> n) \<and> in_order f (y # ys)"

text \<open>Every row of the list has a cell for the column of every key.\<close>

definition has_cells :: "SortKey list \<Rightarrow> 'a BodyRow list \<Rightarrow> bool" where
  "has_cells sortKeys rows \<longleftrightarrow>
     (\<forall>row\<in>set rows. \<forall>key\<in>set sortKeys. cellForId row (id' key) \<noteq> None)"

subsection \<open>getSortedRows on a store\<close>

text \<open>
  Whether \<^verbatim>\<open>getSortedRows\<close> mutates its inputs depends on which arrays and objects it
  writes to, so here arrays and row objects live in a store and are named by
  references. A reference is an index into the store; allocation appends. A row object
  holds its \<^verbatim>\<open>subRows\<close> as a reference to an array of row references, and the key
  sequence is an array of the store as well.
\<close>

type_synonym ref = nat

record 'a RowObject =
  r_others :: 'a
  r_cellForId :: "string \<Rightarrow> BodyCell option"
  r_subRows :: "ref option"

record 'a store =
  row_arrays :: "ref list list"
  row_objects :: "'a RowObject list"
  key_arrays :: "SortKey list list"

text \<open>
  How a call ends: it returns a reference, it raises, it follows a reference that the
  store does not hold, or the recursion budget of the model is used up (a store can
  hold a row among its own descendants, and then the source does not return either).
\<close>

datatype outcome = Returns ref | Throws error | Dangling | OutOfFuel

text \<open>The comparator reads only \<^verbatim>\<open>cellForId\<close> of the two rows.\<close>

definition row_view :: "'a RowObject \<Rightarrow> 'a BodyRow" where
  "row_view obj = BodyRow (r_others obj) (r_cellForId obj) None"

text \<open>
  Modelled from the spec: \<^verbatim>\<open>getCloned\<close> of \<^verbatim>\<open>$lib/utils/clone\<close> is not part of the
  source at hand. On the store \<^verbatim>\<open>getCloned(source, {subRows: sortedSubRows})\<close>
  allocates a new row object with the fields of \<^verbatim>\<open>source\<close> and the given
  \<^verbatim>\<open>subRows\<close>, and returns its reference; it writes to nothing else.
\<close>

definition getCloned_s :: "'a store \<Rightarrow> ref \<Rightarrow> ref \<Rightarrow> 'a store \<times> ref" where
  "getCloned_s s source sortedSubRows =
     (s\<lparr>row_objects :=
          row_objects s @ [(row_objects s ! source)\<lparr>r_subRows := Some sortedSubRows\<rparr>]\<rparr>,
      length (row_objects s))"

declare getCloned_s_def [simp]

text \<open>
  The statements of the source in their order: \<^verbatim>\<open>[...rows]\<close> allocates the copy,
  \<^verbatim>\<open>sort\<close> writes the sorted references into it, and the loop (\<open>loop_s\<close>, with the
  index \<open>i\<close>) reads \<^verbatim>\<open>_sortedRows[i]\<close>, calls the function on its \<^verbatim>\<open>subRows\<close>, reads
  \<^verbatim>\<open>_sortedRows[i]\<close> again for \<^verbatim>\<open>getCloned\<close> and writes the reference of the
  clone to \<^verbatim>\<open>_sortedRows[i]\<close>. When the comparator raises, the copy is left as it
  was allocated.
\<close>

fun getSortedRows_s ::
  "nat \<Rightarrow> (jsvalue \<Rightarrow> jsvalue \<Rightarrow> int) \<Rightarrow> 'a store \<Rightarrow> ref \<Rightarrow> ref \<Rightarrow> column_options \<Rightarrow>
   'a store \<times> outcome"
  and loop_s ::
  "nat \<Rightarrow> (jsvalue \<Rightarrow> jsvalue \<Rightarrow> int) \<Rightarrow> 'a store \<Rightarrow> ref \<Rightarrow> nat \<Rightarrow> ref \<Rightarrow> column_options \<Rightarrow>
   'a store \<times> outcome"
where
  "getSortedRows_s 0 compare s rows sortKeys columnOptions = (s, OutOfFuel)"
| "getSortedRows_s (Suc fuel) compare s rows sortKeys columnOptions =
     (if rows < length (row_arrays s) \<and> sortKeys < length (key_arrays s) then
        (let sortedRows = length (row_arrays s);
             s1 = s\<lparr>row_arrays := row_arrays s @ [row_arrays s ! rows]\<rparr>
         in if \<forall>r\<in>set (row_arrays s1 ! sortedRows). r < length (row_objects s1) then
              (case Array_sort
                      (\<lambda>a b. compareFn compare (key_arrays s1 ! sortKeys) columnOptions
                                (row_view (row_objects s1 ! a)) (row_view (row_objects s1 ! b)))
                      (row_arrays s1 ! sortedRows) of
                 Inl e \<Rightarrow> (s1, Throws e)
               | Inr sortedRefs \<Rightarrow>
                   loop_s fuel compare
                     (s1\<lparr>row_arrays := (row_arrays s1)[sortedRows := sortedRefs]\<rparr>)
                     sortedRows 0 sortKeys columnOptions)
            else (s1, Dangling))
      else (s, Dangling))"
| "loop_s 0 compare s sortedRows i sortKeys columnOptions = (s, OutOfFuel)"
| "loop_s (Suc fuel) compare s sortedRows i sortKeys columnOptions =
     (if sortedRows < length (row_arrays s) then
        (if i < length (row_arrays s ! sortedRows) then
           (let row = row_arrays s ! sortedRows ! i
            in if row < length (row_objects s) then
                 (case r_subRows (row_objects s ! row) of
                    None \<Rightarrow> loop_s fuel compare s sortedRows (i + 1) sortKeys columnOptions
                  | Some subRowsRef \<Rightarrow>
                      (case getSortedRows_s fuel compare s subRowsRef sortKeys columnOptions of
                         (s', Returns sortedSubRows) \<Rightarrow>
                           (if sortedRows < length (row_arrays s') \<and>
                               i < length (row_arrays s' ! sortedRows) \<and>
                               row_arrays s' ! sortedRows ! i < length (row_objects s')
                            then
                              (let cloned = getCloned_s s' (row_arrays s' ! sortedRows ! i)
                                              sortedSubRows;
                                   s1 = fst cloned;
                                   s'' = s1\<lparr>row_arrays :=
                                              (row_arrays s1)
                                                [sortedRows :=
                                                   (row_arrays s1 ! sortedRows)[i := snd cloned]]\<rparr>
                               in loop_s fuel compare s'' sortedRows (i + 1) sortKeys columnOptions)
                            else (s', Dangling))
                       | (s', other) \<Rightarrow> (s', other)))
               else (s, Dangling))
         else (s, Returns sortedRows))
      else (s, Dangling))"

text \<open>
  \<open>unchanged_but A s s'\<close>: the store \<open>s'\<close> has every array of \<open>s\<close> outside \<open>A\<close>,
  every row object of \<open>s\<close> and the key sequences of \<open>s\<close>, with the same contents.
\<close>

definition unchanged_but :: "ref set \<Rightarrow> 'a store \<Rightarrow> 'a store \<Rightarrow> bool" where
  "unchanged_but A s s' \<longleftrightarrow>
     length (row_arrays s) \<le> length (row_arrays s') \<and>
     (\<forall>a<length (row_arrays s). a \<notin> A \<longrightarrow> row_arrays s' ! a = row_arrays s ! a) \<and>
     length (row_objects s) \<le> length (row_objects s') \<and>
     (\<forall>r<length (row_objects s). row_objects s' ! r = row_objects s ! r) \<and>
     key_arrays s' = key_arrays s"

text \<open>
  The store and the forest. \<open>represents lo hi s refs rows\<close>: the row references
  \<open>refs\<close> of the store \<open>s\<close> stand for the rows \<open>rows\<close>, field by field and sub-row by
  sub-row, and every \<^verbatim>\<open>subRows\<close> array met on the way has its reference between \<open>lo\<close>
  and \<open>hi\<close>.
\<close>

fun represents :: "nat \<Rightarrow> nat \<Rightarrow> 'a store \<Rightarrow> ref list \<Rightarrow> 'a BodyRow list \<Rightarrow> bool"
  and represents_row :: "nat \<Rightarrow> nat \<Rightarrow> 'a store \<Rightarrow> ref \<Rightarrow> 'a BodyRow \<Rightarrow> bool"
where
  "represents lo hi s [] [] \<longleftrightarrow> True"
| "represents lo hi s (r # refs) (row # rows) \<longleftrightarrow>
     represents_row lo hi s r row \<and> represents lo hi s refs rows"
| "represents lo hi s [] (row # rows) \<longleftrightarrow> False"
| "represents lo hi s (r # refs) [] \<longleftrightarrow> False"
| "represents_row lo hi s r (BodyRow x cells sub) \<longleftrightarrow>
     r < length (row_objects s) \<and>
     r_others (row_objects s ! r) = x \<and>
     r_cellForId (row_objects s ! r) = cells \<and>
     (case sub of
        None \<Rightarrow> r_subRows (row_objects s ! r) = None
      | Some rows \<Rightarrow>
          (case r_subRows (row_objects s ! r) of
             None \<Rightarrow> False
           | Some a \<Rightarrow>
               lo \<le> a \<and> a < hi \<and> a < length (row_arrays s) \<and>
               represents lo hi s (row_arrays s ! a) rows))"

text \<open>
  A call on the store agrees with \<^verbatim>\<open>getSortedRows\<close> on the forest: it returns a new
  array that stands for the returned forest, or both raise. \<open>loop_ok\<close> is the same for
  the loop from index \<open>i\<close> on, which leaves the first \<open>i\<close> entries of the array alone.
\<close>

definition sort_ok :: "'a store \<Rightarrow> 'a store \<times> outcome \<Rightarrow> error + 'a BodyRow list \<Rightarrow> bool" where
  "sort_ok s res pure \<longleftrightarrow>
     (case res of
        (s', Returns a') \<Rightarrow>
          a' = length (row_arrays s) \<and> a' < length (row_arrays s') \<and>
          (case pure of
             Inl e \<Rightarrow> False
           | Inr out \<Rightarrow> represents (Suc a') (length (row_arrays s')) s' (row_arrays s' ! a') out)
      | (s', Throws e) \<Rightarrow> pure = Inl e
      | (s', Dangling) \<Rightarrow> False
      | (s', OutOfFuel) \<Rightarrow> False)"

definition loop_ok ::
  "'a store \<Rightarrow> ref \<Rightarrow> nat \<Rightarrow> 'a store \<times> outcome \<Rightarrow> error + 'a BodyRow list \<Rightarrow> bool" where
  "loop_ok s n i res pure \<longleftrightarrow>
     (case res of
        (s', Returns a') \<Rightarrow>
          a' = n \<and> take i (row_arrays s' ! n) = take i (row_arrays s ! n) \<and>
          (case pure of
             Inl e \<Rightarrow> False
           | Inr rest' \<Rightarrow>
               represents (Suc n) (length (row_arrays s')) s' (drop i (row_arrays s' ! n)) rest')
      | (s', Throws e) \<Rightarrow> pure = Inl e
      | (s', Dangling) \<Rightarrow> False
      | (s', OutOfFuel) \<Rightarrow> False)"

text \<open>The example \<open>family\<close> in a store: array 0 is the forest, array 1 the sub-rows.\<close>

definition family_store :: "nat store" where
  "family_store =
     \<lparr>row_arrays = [[0, 3], [1, 2]],
      row_objects =
        [\<lparr>r_others = 0, r_cellForId = [''v'' \<mapsto> DataBodyCell ''v'' (JNumber 3)], r_subRows = Some 1\<rparr>,
         \<lparr>r_others = 1, r_cellForId = [''v'' \<mapsto> DataBodyCell ''v'' (JNumber 2)], r_subRows = None\<rparr>,
         \<lparr>r_others = 2, r_cellForId = [''v'' \<mapsto> DataBodyCell ''v'' (JNumber 1)], r_subRows = None\<rparr>,
         \<lparr>r_others = 3, r_cellForId = [''v'' \<mapsto> DataBodyCell ''v'' (JNumber 0)], r_subRows = None\<rparr>],
      key_arrays = [[\<lparr>id' = ''v'', order' = asc\<rparr>]]\<rparr>"

section \<open>The key store\<close>

subsection \<open>findIndex\<close>

lemma findIndex_ge: "- 1 \<le> findIndex p xs"
  by (induction xs) (auto simp: Let_def)

lemma findIndex_absent: "findIndex p xs = - 1 \<longleftrightarrow> (\<forall>x\<in>set xs. \<not> p x)"
proof (induction xs)
  case Nil
  show ?case by simp
next
  case (Cons x xs)
  have "findIndex p xs \<noteq> - 2" using findIndex_ge [of p xs] by arith
  with Cons show ?case by (auto simp: Let_def)
qed

lemma findIndex_first:
  "\<forall>x\<in>set pre. \<not> p x \<Longrightarrow> p y \<Longrightarrow> findIndex p (pre @ y # post) = int (length pre)"
proof (induction pre)
  case Nil
  then show ?case by simp
next
  case (Cons a pre)
  then have "findIndex p (pre @ y # post) = int (length pre)" by simp
  with Cons.prems show ?case by (simp add: Let_def)
qed

lemma findIndex_split:
  assumes "findIndex p xs \<noteq> - 1"
  shows "\<exists>pre y post. xs = pre @ y # post \<and> (\<forall>x\<in>set pre. \<not> p x) \<and> p y"
proof -
  from assms have "\<exists>x\<in>set xs. p x" by (simp add: findIndex_absent)
  then show ?thesis by (metis split_list_first_prop)
qed

subsection \<open>The transitions of toggleId and clearId\<close>

lemma nat_int_succ: "nat (int n + 1) = Suc n"
  by arith

lemma toggleId_multi_absent:
  "\<forall>k\<in>set ks. id' k \<noteq> c \<Longrightarrow>
   toggleId c \<lparr>multiSort = Some True\<rparr> ks = ks @ [\<lparr>id' = c, order' = asc\<rparr>]"
  by (simp add: toggleId_def Let_def findIndex_absent [THEN iffD2])

lemma toggleId_multi_present:
  assumes "\<forall>k\<in>set pre. id' k \<noteq> c" and "id' y = c"
  shows "toggleId c \<lparr>multiSort = Some True\<rparr> (pre @ y # post) =
           (if order' y = asc then pre @ \<lparr>id' = c, order' = desc\<rparr> # post else pre @ post)"
proof -
  have "findIndex (\<lambda>key. id' key = c) (pre @ y # post) = int (length pre)"
    using assms by (intro findIndex_first) auto
  then show ?thesis by (simp add: toggleId_def Let_def nat_int_succ)
qed

lemma toggleId_single_absent:
  "\<forall>k\<in>set ks. id' k \<noteq> c \<Longrightarrow>
   toggleId c \<lparr>multiSort = Some False\<rparr> ks = [\<lparr>id' = c, order' = asc\<rparr>]"
  by (simp add: toggleId_def Let_def findIndex_absent [THEN iffD2])

lemma toggleId_single_present:
  assumes "\<forall>k\<in>set pre. id' k \<noteq> c" and "id' y = c"
  shows "toggleId c \<lparr>multiSort = Some False\<rparr> (pre @ y # post) =
           (if order' y = asc then [\<lparr>id' = c, order' = desc\<rparr>] else [])"
proof -
  have "findIndex (\<lambda>key. id' key = c) (pre @ y # post) = int (length pre)"
    using assms by (intro findIndex_first) auto
  then show ?thesis by (simp add: toggleId_def Let_def nat_int_succ)
qed

lemma toggleId_default: "toggleId c \<lparr>multiSort = None\<rparr> ks = toggleId c \<lparr>multiSort = Some True\<rparr> ks"
  by (simp add: toggleId_def)

lemma clearId_absent: "\<forall>k\<in>set ks. id' k \<noteq> c \<Longrightarrow> clearId c ks = ks"
  by (simp add: clearId_def Let_def findIndex_absent [THEN iffD2])

lemma clearId_present:
  assumes "\<forall>k\<in>set pre. id' k \<noteq> c" and "id' y = c"
  shows "clearId c (pre @ y # post) = pre @ post"
proof -
  have "findIndex (\<lambda>key. id' key = c) (pre @ y # post) = int (length pre)"
    using assms by (intro findIndex_first) auto
  then show ?thesis by (simp add: clearId_def Let_def nat_int_succ)
qed

text \<open>
  C3. The per-column cycle absent, Asc, Desc, absent of \<^verbatim>\<open>toggleId\<close>. With
  \<open>multiSort = true\<close>: a column that is absent is appended as Asc at the end; a column
  present as Asc is flipped to Desc at its position; a column present as Desc is removed
  and the other keys keep their order. With \<open>multiSort = false\<close> the new sequence is
  \<open>[{c, Asc}]\<close>, \<open>[{c, Desc}]\<close> or \<open>[]\<close> in the three states. "Present" is the first
  entry with that column id, which \<^verbatim>\<open>findIndex\<close> finds.
\<close>

theorem toggleId_three_state_cycle:
  "((\<forall>k\<in>set ks. id' k \<noteq> c) \<longrightarrow>
      toggleId c \<lparr>multiSort = Some True\<rparr> ks = ks @ [\<lparr>id' = c, order' = asc\<rparr>]) \<and>
   ((\<forall>k\<in>set pre. id' k \<noteq> c) \<longrightarrow>
      toggleId c \<lparr>multiSort = Some True\<rparr> (pre @ \<lparr>id' = c, order' = asc\<rparr> # post)
        = pre @ \<lparr>id' = c, order' = desc\<rparr> # post) \<and>
   ((\<forall>k\<in>set pre. id' k \<noteq> c) \<longrightarrow>
      toggleId c \<lparr>multiSort = Some True\<rparr> (pre @ \<lparr>id' = c, order' = desc\<rparr> # post)
        = pre @ post) \<and>
   ((\<forall>k\<in>set ks. id' k \<noteq> c) \<longrightarrow>
      toggleId c \<lparr>multiSort = Some False\<rparr> ks = [\<lparr>id' = c, order' = asc\<rparr>]) \<and>
   ((\<forall>k\<in>set pre. id' k \<noteq> c) \<longrightarrow>
      toggleId c \<lparr>multiSort = Some False\<rparr> (pre @ \<lparr>id' = c, order' = asc\<rparr> # post)
        = [\<lparr>id' = c, order' = desc\<rparr>]) \<and>
   ((\<forall>k\<in>set pre. id' k \<noteq> c) \<longrightarrow>
      toggleId c \<lparr>multiSort = Some False\<rparr> (pre @ \<lparr>id' = c, order' = desc\<rparr> # post) = [])"
  by (simp add: toggleId_multi_absent toggleId_multi_present
      toggleId_single_absent toggleId_single_present)

theorem toggleId_three_state_cycle_witness:
  "id' \<lparr>id' = ''name'', order' = desc\<rparr> \<noteq> ''age'' \<and>
   toggleId ''age'' \<lparr>multiSort = Some True\<rparr> [\<lparr>id' = ''name'', order' = desc\<rparr>]
     = [\<lparr>id' = ''name'', order' = desc\<rparr>, \<lparr>id' = ''age'', order' = asc\<rparr>] \<and>
   toggleId ''age'' \<lparr>multiSort = Some True\<rparr>
       [\<lparr>id' = ''name'', order' = desc\<rparr>, \<lparr>id' = ''age'', order' = asc\<rparr>,
        \<lparr>id' = ''city'', order' = asc\<rparr>]
     = [\<lparr>id' = ''name'', order' = desc\<rparr>, \<lparr>id' = ''age'', order' = desc\<rparr>,
        \<lparr>id' = ''city'', order' = asc\<rparr>] \<and>
   toggleId ''age'' \<lparr>multiSort = Some True\<rparr>
       [\<lparr>id' = ''name'', order' = desc\<rparr>, \<lparr>id' = ''age'', order' = desc\<rparr>,
        \<lparr>id' = ''city'', order' = asc\<rparr>]
     = [\<lparr>id' = ''name'', order' = desc\<rparr>, \<lparr>id' = ''city'', order' = asc\<rparr>] \<and>
   toggleId ''age'' \<lparr>multiSort = Some False\<rparr> [\<lparr>id' = ''name'', order' = desc\<rparr>]
     = [\<lparr>id' = ''age'', order' = asc\<rparr>] \<and>
   toggleId ''age'' \<lparr>multiSort = Some False\<rparr>
       [\<lparr>id' = ''name'', order' = desc\<rparr>, \<lparr>id' = ''age'', order' = asc\<rparr>,
        \<lparr>id' = ''city'', order' = asc\<rparr>]
     = [\<lparr>id' = ''age'', order' = desc\<rparr>] \<and>
   toggleId ''age'' \<lparr>multiSort = Some False\<rparr>
       [\<lparr>id' = ''name'', order' = desc\<rparr>, \<lparr>id' = ''age'', order' = desc\<rparr>,
        \<lparr>id' = ''city'', order' = asc\<rparr>]
     = []"
  using toggleId_three_state_cycle
    [of "[\<lparr>id' = ''name'', order' = desc\<rparr>]" "''age''" "[\<lparr>id' = ''name'', order' = desc\<rparr>]"
        "[\<lparr>id' = ''city'', order' = asc\<rparr>]"]
  by simp

subsection \<open>Uniqueness of the column ids\<close>

lemma toggleId_distinct:
  assumes "distinct (map id' ks)"
  shows "distinct (map id' (toggleId c options ks))"
proof (cases "findIndex (\<lambda>key. id' key = c) ks = - 1")
  case True
  then have "c \<notin> set (map id' ks)" by (auto simp: findIndex_absent)
  with assms True show ?thesis
    by (auto simp: toggleId_def Let_def split: option.splits)
next
  case False
  then obtain pre y post where
    ks: "ks = pre @ y # post" and pre: "\<forall>x\<in>set pre. id' x \<noteq> c" and y: "id' y = c"
    using findIndex_split [of "\<lambda>key. id' key = c" ks] by auto
  have idx: "findIndex (\<lambda>key. id' key = c) ks = int (length pre)"
    unfolding ks using pre y by (intro findIndex_first) auto
  from assms have "distinct (map id' (pre @ \<lparr>id' = c, order' = desc\<rparr> # post))"
    and "distinct (map id' (pre @ post))"
    by (auto simp: ks y)
  then show ?thesis
    using idx by (auto simp: toggleId_def Let_def ks nat_int_succ split: option.splits)
qed

lemma clearId_distinct:
  assumes "distinct (map id' ks)"
  shows "distinct (map id' (clearId c ks))"
proof (cases "findIndex (\<lambda>key. id' key = c) ks = - 1")
  case True
  with assms show ?thesis by (simp add: clearId_def)
next
  case False
  then obtain pre y post where
    ks: "ks = pre @ y # post" and pre: "\<forall>x\<in>set pre. id' x \<noteq> c" and y: "id' y = c"
    using findIndex_split [of "\<lambda>key. id' key = c" ks] by auto
  have "clearId c ks = pre @ post"
    unfolding ks using pre y by (rule clearId_present)
  with assms show ?thesis by (auto simp: ks)
qed

lemma apply_call_distinct:
  "distinct (map id' ks) \<Longrightarrow> distinct (map id' (apply_call ks call))"
  by (cases call) (simp_all add: toggleId_distinct clearId_distinct)

text \<open>
  C7. Key uniqueness is an invariant of the store: from a sequence whose column ids are
  pairwise distinct (the empty one, for instance), every finite sequence of
  \<^verbatim>\<open>toggleId\<close> and \<^verbatim>\<open>clearId\<close> calls, with any options, leads to a sequence whose
  column ids are pairwise distinct.
\<close>

theorem sort_keys_unique_invariant:
  "distinct (map id' ks) \<Longrightarrow> distinct (map id' (apply_calls ks calls))"
  unfolding apply_calls_def
proof (induction calls arbitrary: ks)
  case Nil
  then show ?case by simp
next
  case (Cons call calls)
  from Cons.prems have "distinct (map id' (apply_call ks call))"
    by (rule apply_call_distinct)
  then show ?case using Cons.IH by simp
qed

theorem sort_keys_unique_invariant_witness:
  "distinct (map id' ([] :: SortKey list)) \<and>
   apply_calls []
     [ToggleId ''age'' \<lparr>multiSort = Some True\<rparr>, ToggleId ''name'' \<lparr>multiSort = Some True\<rparr>,
      ToggleId ''age'' \<lparr>multiSort = Some True\<rparr>, ClearId ''name'',
      ToggleId ''city'' \<lparr>multiSort = None\<rparr>]
     = [\<lparr>id' = ''age'', order' = desc\<rparr>, \<lparr>id' = ''city'', order' = asc\<rparr>] \<and>
   distinct (map id' (apply_calls []
     [ToggleId ''age'' \<lparr>multiSort = Some True\<rparr>, ToggleId ''name'' \<lparr>multiSort = Some True\<rparr>,
      ToggleId ''age'' \<lparr>multiSort = Some True\<rparr>, ClearId ''name'',
      ToggleId ''city'' \<lparr>multiSort = None\<rparr>]))"
  using sort_keys_unique_invariant
    [of "[]" "[ToggleId ''age'' \<lparr>multiSort = Some True\<rparr>,
               ToggleId ''name'' \<lparr>multiSort = Some True\<rparr>,
               ToggleId ''age'' \<lparr>multiSort = Some True\<rparr>, ClearId ''name'',
               ToggleId ''city'' \<lparr>multiSort = None\<rparr>]"]
  by (simp add: apply_calls_def toggleId_def clearId_def)

subsection \<open>The header hook\<close>

text \<open>
  C10. For a header cell of a column whose options have \<^verbatim>\<open>disable = true\<close>, and for
  a header cell that is not a data cell, the \<^verbatim>\<open>toggle\<close> and \<^verbatim>\<open>clear\<close> props made by
  the hook \<^verbatim>\<open>'thead.tr.th'\<close> leave the key sequence as it is: the plugin returns before
  it calls the store.
\<close>

theorem th_props_suppressed:
  "(\<not> isData cell \<or> (\<exists>option. columnOptions (hid cell) = Some option \<and> disable option = Some True))
   \<Longrightarrow> th_toggle config columnOptions cell event ks = ks \<and> th_clear columnOptions cell ks = ks"
  by (auto simp: th_toggle_def th_clear_def disabledSortIds_def)

theorem th_props_suppressed_witness:
  "(\<exists>option. [''age'' \<mapsto> \<lparr>disable = Some True, getSortValue = None, invert = None\<rparr>]
       (hid \<lparr>hid = ''age'', isData = True\<rparr>) = Some option \<and> disable option = Some True) \<and>
   th_toggle \<lparr>disableMultiSort = False, isMultiSortEvent = (\<lambda>shift. shift)\<rparr>
     [''age'' \<mapsto> \<lparr>disable = Some True, getSortValue = None, invert = None\<rparr>]
     \<lparr>hid = ''age'', isData = True\<rparr> True [\<lparr>id' = ''age'', order' = asc\<rparr>]
     = [\<lparr>id' = ''age'', order' = asc\<rparr>] \<and>
   th_clear [''age'' \<mapsto> \<lparr>disable = Some True, getSortValue = None, invert = None\<rparr>]
     \<lparr>hid = ''age'', isData = True\<rparr> [\<lparr>id' = ''age'', order' = asc\<rparr>]
     = [\<lparr>id' = ''age'', order' = asc\<rparr>] \<and>
   th_toggle \<lparr>disableMultiSort = False, isMultiSortEvent = (\<lambda>shift. shift)\<rparr>
     Map.empty \<lparr>hid = ''age'', isData = True\<rparr> True [\<lparr>id' = ''age'', order' = asc\<rparr>]
     = [\<lparr>id' = ''age'', order' = desc\<rparr>]"
proof -
  have h: "\<not> isData \<lparr>hid = ''age'', isData = True\<rparr> \<or>
      (\<exists>option. [''age'' \<mapsto> \<lparr>disable = Some True, getSortValue = None, invert = None\<rparr>]
         (hid \<lparr>hid = ''age'', isData = True\<rparr>) = Some option \<and> disable option = Some True)"
    by simp
  have t: "th_toggle \<lparr>disableMultiSort = False, isMultiSortEvent = (\<lambda>shift. shift)\<rparr>
     Map.empty \<lparr>hid = ''age'', isData = True\<rparr> True [\<lparr>id' = ''age'', order' = asc\<rparr>]
     = [\<lparr>id' = ''age'', order' = desc\<rparr>]"
    by (simp add: th_toggle_def disabledSortIds_def toggleId_def)
  from h have "th_toggle \<lparr>disableMultiSort = False, isMultiSortEvent = (\<lambda>shift. shift)\<rparr>
       [''age'' \<mapsto> \<lparr>disable = Some True, getSortValue = None, invert = None\<rparr>]
       \<lparr>hid = ''age'', isData = True\<rparr> True [\<lparr>id' = ''age'', order' = asc\<rparr>]
       = [\<lparr>id' = ''age'', order' = asc\<rparr>] \<and>
     th_clear [''age'' \<mapsto> \<lparr>disable = Some True, getSortValue = None, invert = None\<rparr>]
       \<lparr>hid = ''age'', isData = True\<rparr> [\<lparr>id' = ''age'', order' = asc\<rparr>]
       = [\<lparr>id' = ''age'', order' = asc\<rparr>]"
    by (rule th_props_suppressed)
  with t show ?thesis by simp
qed

section \<open>The sorter\<close>

subsection \<open>The comparison helper on some values\<close>

text \<open>
  Numbers compare by their difference and strings by character code; a number and an
  array compare as numbers when the array prints as one; a comparison with the plain
  object, with \<^verbatim>\<open>undefined\<close> or with a string that is no number is a tie; an array
  ties with every array that it is a prefix of.
\<close>

lemma compare_spec_values:
  "compare_spec (JNumber 30) (JNumber 25) = 5"
  "compare_spec (JString ''Amy'') (JString ''Bob'') = - 1"
  "compare_spec (JString ''10'') (JString ''9'') = - 1"
  "compare_spec (JString ''10'') (JNumber 9) = 1"
  "compare_spec (JString ''abc'') (JNumber 9) = 0"
  "compare_spec (JNumber 1) JObject = 0"
  "compare_spec JUndefined (JNumber 9) = 0"
  "compare_spec (JNumber 1) (JArray [JNumber 2]) = - 1"
  "compare_spec (JArray [JNumber 2]) (JNumber 1) = 1"
  "compare_spec (JArray [JNumber 1]) (JArray [JNumber 1, JNumber 2]) = 0"
  "compare_spec (JArray [JNumber 1, JNumber 3]) (JArray [JNumber 1, JNumber 2]) = 1"
  by (simp_all add: compare_eval)

subsection \<open>The sort of one level\<close>

lemma binarySearch_done:
  "\<not> left < right \<Longrightarrow> binarySearch f p s left right = Inr left"
  by (subst binarySearch.simps) simp

lemma binarySearch_step:
  "left < right \<Longrightarrow>
   binarySearch f p s left right =
     (case f p (s ! (left + (right - left) div 2)) of
        Inl e \<Rightarrow> Inl e
      | Inr ord \<Rightarrow>
          if ord < 0 then binarySearch f p s left (left + (right - left) div 2)
          else binarySearch f p s (left + (right - left) div 2 + 1) right)"
  by (subst binarySearch.simps) (simp add: Let_def)

lemma Array_sort_set: "Array_sort f xs = Inr ys \<Longrightarrow> set ys = set xs"
  by (metis Array_sort_mset set_mset_mset)

lemma Array_sort_length: "Array_sort f xs = Inr ys \<Longrightarrow> length ys = length xs"
  by (metis Array_sort_mset size_mset)

text \<open>The sort returns when the comparator answers every pair.\<close>

lemma binarySearch_returns:
  assumes "\<forall>y\<in>set s. \<exists>n. f p y = Inr n"
  shows "right \<le> length s \<Longrightarrow> \<exists>k. binarySearch f p s left right = Inr k"
  using assms
proof (induction f p s left right rule: binarySearch.induct)
  case (1 f p s left right)
  show ?case
  proof (cases "left < right")
    case False
    then show ?thesis by (simp add: binarySearch_done)
  next
    case True
    define mid where "mid = left + (right - left) div 2"
    have m: "left \<le> mid" "mid < right" using True by (simp_all add: mid_def)
    with 1(3) have "s ! mid \<in> set s" by simp
    with 1(4) obtain ord where ord: "f p (s ! mid) = Inr ord" by blast
    show ?thesis
    proof (cases "ord < 0")
      case lt: True
      have "mid \<le> length s" using m 1(3) by simp
      from 1(1) [OF True mid_def ord lt this 1(4)] True ord lt show ?thesis
        by (simp add: binarySearch_step mid_def)
    next
      case ge: False
      from 1(2) [OF True mid_def ord ge 1(3) 1(4)] True ord ge show ?thesis
        by (simp add: binarySearch_step mid_def)
    qed
  qed
qed

lemma binaryInsertionSort_returns:
  assumes "\<forall>x\<in>set sortedPart \<union> set rest. \<forall>y\<in>set sortedPart \<union> set rest. \<exists>n. f x y = Inr n"
  shows "\<exists>ys. binaryInsertionSort f sortedPart rest = Inr ys"
  using assms
proof (induction rest arbitrary: sortedPart)
  case Nil
  show ?case by simp
next
  case (Cons pivot rest)
  have "\<forall>y\<in>set sortedPart. \<exists>n. f pivot y = Inr n" using Cons.prems by simp
  then have "\<exists>k. binarySearch f pivot sortedPart 0 (length sortedPart) = Inr k"
    by (intro binarySearch_returns) simp_all
  then obtain k where k: "binarySearch f pivot sortedPart 0 (length sortedPart) = Inr k" ..
  have "set (take k sortedPart @ pivot # drop k sortedPart) = insert pivot (set sortedPart)"
    by (metis append_take_drop_id list.simps(15) set_append Un_insert_right)
  then have "\<exists>ys. binaryInsertionSort f (take k sortedPart @ pivot # drop k sortedPart) rest = Inr ys"
    using Cons.prems by (intro Cons.IH) auto
  with k show ?case by simp
qed

lemma countRun_returns:
  "\<forall>x\<in>set (p # xs). \<forall>y\<in>set (p # xs). \<exists>n. f x y = Inr n \<Longrightarrow> \<exists>n. countRun f d p xs = Inr n"
proof (induction xs arbitrary: p)
  case Nil
  show ?case by simp
next
  case (Cons x xs)
  from Cons.prems obtain ord where ord: "f x p = Inr ord" by (meson list.set_intros)
  have "\<exists>n. countRun f d x xs = Inr n" using Cons.prems by (intro Cons.IH) auto
  with ord show ?case by auto
qed

lemma Array_sort_returns:
  assumes "\<forall>x\<in>set xs. \<forall>y\<in>set xs. \<exists>n. f x y = Inr n"
  shows "\<exists>ys. Array_sort f xs = Inr ys"
proof (cases "(f, xs)" rule: Array_sort.cases)
  case (1 comparefn)
  then show ?thesis by simp
next
  case (2 comparefn x)
  then show ?thesis by simp
next
  case (3 comparefn h l rest)
  then have xs: "xs = h # l # rest" by simp
  from assms obtain ord where ord: "f l h = Inr ord" unfolding xs by (meson list.set_intros)
  have "\<exists>n. countRun f (ord < 0) l rest = Inr n"
    using assms unfolding xs by (intro countRun_returns) auto
  then obtain n where n: "countRun f (ord < 0) l rest = Inr n" ..
  let ?run = "take (Suc (Suc n)) (h # l # rest)"
  let ?rem = "drop (Suc (Suc n)) (h # l # rest)"
  have s: "set ?run \<union> set ?rem = set xs"
    unfolding xs by (metis append_take_drop_id set_append)
  have "\<exists>ys. binaryInsertionSort f (if ord < 0 then rev ?run else ?run) ?rem = Inr ys"
  proof (rule binaryInsertionSort_returns)
    have "set (if ord < 0 then rev ?run else ?run) = set ?run"
      by (cases "ord < 0") (simp_all only: set_rev if_True if_False)
    with s have "set (if ord < 0 then rev ?run else ?run) \<union> set ?rem = set xs"
      by (simp only:)
    with assms show "\<forall>x\<in>set (if ord < 0 then rev ?run else ?run) \<union> set ?rem.
        \<forall>y\<in>set (if ord < 0 then rev ?run else ?run) \<union> set ?rem. \<exists>n. f x y = Inr n"
      by simp
  qed
  with ord n show ?thesis unfolding xs by (simp add: Let_def del: take_Suc_Cons drop_Suc_Cons)
qed

text \<open>
  The sort of related arrays under related comparators: the same comparisons are made,
  so both raise the same exception or the results are related.
\<close>

lemma binarySearch_rel:
  assumes "list_all2 R s s'" and "R p p'"
    and "\<And>a b a' b'. R a a' \<Longrightarrow> R b b' \<Longrightarrow> f a b = g a' b'"
  shows "right \<le> length s \<Longrightarrow> binarySearch f p s left right = binarySearch g p' s' left right"
proof (induction "right - left" arbitrary: left right rule: less_induct)
  case less
  show ?case
  proof (cases "left < right")
    case False
    then show ?thesis by (simp add: binarySearch_done)
  next
    case True
    define mid where "mid = left + (right - left) div 2"
    have m: "left \<le> mid" "mid < right" using True by (simp_all add: mid_def)
    have "mid < length s" using m less.prems by simp
    with assms(1) have "R (s ! mid) (s' ! mid)" by (simp add: list_all2_nthD)
    with assms(2) have eq: "f p (s ! mid) = g p' (s' ! mid)" by (rule assms(3))
    have l: "binarySearch f p s left mid = binarySearch g p' s' left mid"
      using m less.prems by (intro less.hyps) simp_all
    have r: "binarySearch f p s (mid + 1) right = binarySearch g p' s' (mid + 1) right"
      using m less.prems by (intro less.hyps) simp_all
    show ?thesis
      using eq l r unfolding mid_def
      by (simp add: binarySearch_step [OF True] split: sum.splits)
  qed
qed

lemma binaryInsertionSort_rel:
  assumes "list_all2 R rest rest'"
    and "\<And>a b a' b'. R a a' \<Longrightarrow> R b b' \<Longrightarrow> f a b = g a' b'"
  shows "list_all2 R sp sp' \<Longrightarrow>
         rel_sum (=) (list_all2 R) (binaryInsertionSort f sp rest) (binaryInsertionSort g sp' rest')"
  using assms(1)
proof (induction rest rest' arbitrary: sp sp' rule: list_all2_induct)
  case Nil
  then show ?case by simp
next
  case (Cons p rest p' rest')
  have len: "length sp' = length sp" using Cons.prems by (simp add: list_all2_lengthD)
  have eq: "binarySearch f p sp 0 (length sp) = binarySearch g p' sp' 0 (length sp)"
    using Cons.prems Cons.hyps(1) assms(2) by (rule binarySearch_rel) simp_all
  show ?case
  proof (cases "binarySearch g p' sp' 0 (length sp)")
    case (Inl e)
    with eq len show ?thesis by simp
  next
    case (Inr k)
    have "list_all2 R (take k sp @ p # drop k sp) (take k sp' @ p' # drop k sp')"
      using Cons.prems Cons.hyps(1)
      by (intro list_all2_appendI list_all2_takeI list.rel_intros list_all2_dropI)
    from Cons.IH [OF this] Inr eq len show ?thesis by simp
  qed
qed

lemma countRun_rel:
  assumes "list_all2 R xs xs'"
    and "\<And>a b a' b'. R a a' \<Longrightarrow> R b b' \<Longrightarrow> f a b = g a' b'"
  shows "R p p' \<Longrightarrow> countRun f d p xs = countRun g d p' xs'"
  using assms(1)
proof (induction xs xs' arbitrary: p p' rule: list_all2_induct)
  case Nil
  show ?case by simp
next
  case (Cons x xs x' xs')
  have eq: "f x p = g x' p'" using Cons.hyps(1) Cons.prems by (rule assms(2))
  have "countRun f d x xs = countRun g d x' xs'" using Cons.hyps(1) by (rule Cons.IH)
  with eq show ?case by (simp split: sum.splits)
qed

lemma Array_sort_rel_sum:
  assumes "list_all2 R xs ys"
    and "\<And>a b a' b'. R a a' \<Longrightarrow> R b b' \<Longrightarrow> f a b = g a' b'"
  shows "rel_sum (=) (list_all2 R) (Array_sort f xs) (Array_sort g ys)"
proof (cases "(f, xs)" rule: Array_sort.cases)
  case (1 comparefn)
  with assms(1) show ?thesis by simp
next
  case (2 comparefn x)
  with assms(1) show ?thesis by (auto simp: list_all2_Cons1)
next
  case (3 comparefn h l rest)
  then have xs: "xs = h # l # rest" by simp
  with assms(1) obtain h' l' rest' where ys: "ys = h' # l' # rest'"
    and R: "R h h'" "R l l'" "list_all2 R rest rest'"
    by (auto simp: list_all2_Cons1)
  have eq: "f l h = g l' h'" using R(2,1) by (rule assms(2))
  show ?thesis
  proof (cases "g l' h'")
    case (Inl e)
    with eq show ?thesis unfolding xs ys by simp
  next
    case (Inr ord)
    have c: "countRun f (ord < 0) l rest = countRun g (ord < 0) l' rest'"
      using R(3) assms(2) R(2) by (rule countRun_rel)
    show ?thesis
    proof (cases "countRun g (ord < 0) l' rest'")
      case Inl2: (Inl e)
      with eq Inr c show ?thesis unfolding xs ys by simp
    next
      case (Inr n)
      let ?run = "take (Suc (Suc n)) (h # l # rest)"
      let ?rem = "drop (Suc (Suc n)) (h # l # rest)"
      let ?run' = "take (Suc (Suc n)) (h' # l' # rest')"
      let ?rem' = "drop (Suc (Suc n)) (h' # l' # rest')"
      have all: "list_all2 R (h # l # rest) (h' # l' # rest')" using R by simp
      have run: "list_all2 R ?run ?run'" using all by (rule list_all2_takeI)
      have rem: "list_all2 R ?rem ?rem'" using all by (rule list_all2_dropI)
      have "list_all2 R (if ord < 0 then rev ?run else ?run) (if ord < 0 then rev ?run' else ?run')"
        using run by (cases "ord < 0") (simp_all only: list_all2_rev if_True if_False)
      with rem assms(2)
      have "rel_sum (=) (list_all2 R)
              (binaryInsertionSort f (if ord < 0 then rev ?run else ?run) ?rem)
              (binaryInsertionSort g (if ord < 0 then rev ?run' else ?run') ?rem')"
        by (rule binaryInsertionSort_rel)
      with eq \<open>g l' h' = Inr ord\<close> c Inr show ?thesis
        unfolding xs ys by (simp add: Let_def del: take_Suc_Cons drop_Suc_Cons)
    qed
  qed
qed

lemma Array_sort_rel:
  assumes "list_all2 R xs ys"
    and "\<And>a b a' b'. R a a' \<Longrightarrow> R b b' \<Longrightarrow> f a b = g a' b'"
  shows "case Array_sort g ys of
           Inl e \<Rightarrow> Array_sort f xs = Inl e
         | Inr ys' \<Rightarrow> (\<exists>xs'. Array_sort f xs = Inr xs' \<and> list_all2 R xs' ys')"
proof -
  have "rel_sum (=) (list_all2 R) (Array_sort f xs) (Array_sort g ys)"
    using assms by (rule Array_sort_rel_sum)
  then show ?thesis
    by (cases "Array_sort g ys"; cases "Array_sort f xs") simp_all
qed

text \<open>An array that is in order is left as it is.\<close>

lemma countRun_in_order:
  "in_order f (p # xs) \<Longrightarrow> countRun f False p xs = Inr (length xs)"
  by (induction xs arbitrary: p) (auto split: sum.splits)

lemma in_order_fixed: "in_order f xs \<Longrightarrow> Array_sort f xs = Inr xs"
proof (cases "(f, xs)" rule: Array_sort.cases)
  case (1 comparefn)
  then show ?thesis by simp
next
  case (2 comparefn x)
  then show ?thesis by simp
next
  case (3 comparefn h l rest)
  assume io: "in_order f xs"
  from 3 have xs: "xs = h # l # rest" by simp
  from io obtain n where n: "f l h = Inr n" "0 \<le> n" and io': "in_order f (l # rest)"
    unfolding xs by (auto split: sum.splits)
  have "countRun f False l rest = Inr (length rest)" using io' by (rule countRun_in_order)
  with n show ?thesis unfolding xs by simp
qed

subsection \<open>Consistent comparators\<close>

lemma CF_excl:
  "\<not> (lessCF f a b \<and> equalCF f a b)" "\<not> (lessCF f a b \<and> greaterCF f a b)"
  "\<not> (equalCF f a b \<and> greaterCF f a b)"
  by (auto simp: lessCF_def equalCF_def greaterCF_def split: sum.splits)

lemma CF_total:
  "consistent_on f xs \<Longrightarrow> a \<in> set xs \<Longrightarrow> b \<in> set xs \<Longrightarrow>
   lessCF f a b \<or> equalCF f a b \<or> greaterCF f a b"
  unfolding consistent_on_def by blast

lemma CF_refl: "consistent_on f xs \<Longrightarrow> a \<in> set xs \<Longrightarrow> equalCF f a a"
  unfolding consistent_on_def by blast

lemma CF_sym:
  "consistent_on f xs \<Longrightarrow> a \<in> set xs \<Longrightarrow> b \<in> set xs \<Longrightarrow> equalCF f a b \<Longrightarrow> equalCF f b a"
  unfolding consistent_on_def by blast

lemma CF_eq_trans:
  "consistent_on f xs \<Longrightarrow> a \<in> set xs \<Longrightarrow> b \<in> set xs \<Longrightarrow> c \<in> set xs \<Longrightarrow>
   equalCF f a b \<Longrightarrow> equalCF f b c \<Longrightarrow> equalCF f a c"
  unfolding consistent_on_def by blast

lemma CF_less_trans:
  "consistent_on f xs \<Longrightarrow> a \<in> set xs \<Longrightarrow> b \<in> set xs \<Longrightarrow> c \<in> set xs \<Longrightarrow>
   lessCF f a b \<Longrightarrow> lessCF f b c \<Longrightarrow> lessCF f a c"
  unfolding consistent_on_def by blast

lemma CF_greater_trans:
  "consistent_on f xs \<Longrightarrow> a \<in> set xs \<Longrightarrow> b \<in> set xs \<Longrightarrow> c \<in> set xs \<Longrightarrow>
   greaterCF f a b \<Longrightarrow> greaterCF f b c \<Longrightarrow> greaterCF f a c"
  unfolding consistent_on_def by blast

lemma CF_less_greater:
  assumes C: "consistent_on f xs" and a: "a \<in> set xs" and b: "b \<in> set xs"
  shows "lessCF f a b \<longleftrightarrow> greaterCF f b a"
proof
  assume l: "lessCF f a b"
  have "\<not> lessCF f b a"
  proof
    assume "lessCF f b a"
    with l have "lessCF f a a" using CF_less_trans [OF C a b a] by blast
    with CF_refl [OF C a] show False by (meson CF_excl)
  qed
  moreover have "\<not> equalCF f b a"
  proof
    assume "equalCF f b a"
    then have "equalCF f a b" by (rule CF_sym [OF C b a])
    with l show False by (meson CF_excl)
  qed
  ultimately show "greaterCF f b a" using CF_total [OF C b a] by blast
next
  assume g: "greaterCF f b a"
  have "\<not> greaterCF f a b"
  proof
    assume "greaterCF f a b"
    with g have "greaterCF f a a" using CF_greater_trans [OF C a b a] by blast
    with CF_refl [OF C a] show False by (meson CF_excl)
  qed
  moreover have "\<not> equalCF f a b"
  proof
    assume "equalCF f a b"
    then have "equalCF f b a" by (rule CF_sym [OF C a b])
    with g show False by (meson CF_excl)
  qed
  ultimately show "lessCF f a b" using CF_total [OF C a b] by blast
qed

lemma CF_eq_less:
  assumes C: "consistent_on f xs" and a: "a \<in> set xs" and b: "b \<in> set xs" and c: "c \<in> set xs"
    and ab: "equalCF f a b" and bc: "lessCF f b c"
  shows "lessCF f a c"
proof -
  have "\<not> equalCF f a c"
  proof
    assume ac: "equalCF f a c"
    have "equalCF f b a" using ab by (rule CF_sym [OF C a b])
    then have "equalCF f b c" using ac by (rule CF_eq_trans [OF C b a c])
    with bc show False by (meson CF_excl)
  qed
  moreover have "\<not> greaterCF f a c"
  proof
    assume ac: "greaterCF f a c"
    have "greaterCF f c b" using bc CF_less_greater [OF C b c] by simp
    with ac have "greaterCF f a b" using CF_greater_trans [OF C a c b] by blast
    with ab show False by (meson CF_excl)
  qed
  ultimately show ?thesis using CF_total [OF C a c] by blast
qed

lemma CF_less_eq:
  assumes C: "consistent_on f xs" and a: "a \<in> set xs" and b: "b \<in> set xs" and c: "c \<in> set xs"
    and ab: "lessCF f a b" and bc: "equalCF f b c"
  shows "lessCF f a c"
proof -
  have "\<not> equalCF f a c"
  proof
    assume ac: "equalCF f a c"
    have "equalCF f c b" using bc by (rule CF_sym [OF C b c])
    with ac have "equalCF f a b" using CF_eq_trans [OF C a c b] by blast
    with ab show False by (meson CF_excl)
  qed
  moreover have "\<not> greaterCF f a c"
  proof
    assume ac: "greaterCF f a c"
    then have "lessCF f c a" using CF_less_greater [OF C c a] by simp
    then have "lessCF f c b" using ab CF_less_trans [OF C c a b] by blast
    moreover have "equalCF f c b" using bc by (rule CF_sym [OF C b c])
    ultimately show False by (meson CF_excl)
  qed
  ultimately show ?thesis using CF_total [OF C a c] by blast
qed

lemma prec_trans:
  assumes C: "consistent_on f xs"
    and u: "snd u \<in> set xs" and v: "snd v \<in> set xs" and w: "snd w \<in> set xs"
    and uv: "prec f u v" and vw: "prec f v w"
  shows "prec f u w"
proof -
  consider "lessCF f (snd u) (snd v)" "lessCF f (snd v) (snd w)"
    | "lessCF f (snd u) (snd v)" "equalCF f (snd v) (snd w)"
    | "equalCF f (snd u) (snd v)" "lessCF f (snd v) (snd w)"
    | "equalCF f (snd u) (snd v)" "fst u < fst v" "equalCF f (snd v) (snd w)" "fst v < fst w"
    using uv vw unfolding prec_def by blast
  then show ?thesis
  proof cases
    case 1
    then show ?thesis using CF_less_trans [OF C u v w] by (simp add: prec_def)
  next
    case 2
    then show ?thesis using CF_less_eq [OF C u v w] by (simp add: prec_def)
  next
    case 3
    then show ?thesis using CF_eq_less [OF C u v w] by (simp add: prec_def)
  next
    case 4
    then show ?thesis using CF_eq_trans [OF C u v w] by (simp add: prec_def)
  qed
qed

text \<open>The comparator's answer and the order prec.\<close>

lemma prec_of_less:
  "f (snd u) (snd v) = Inr n \<Longrightarrow> n < 0 \<Longrightarrow> prec f u v"
  by (simp add: prec_def lessCF_def)

lemma prec_of_not_less:
  assumes C: "consistent_on f xs" and u: "snd u \<in> set xs" and v: "snd v \<in> set xs"
    and n: "f (snd u) (snd v) = Inr n" "0 \<le> n" and t: "fst v < fst u"
  shows "prec f v u"
proof (cases "n = 0")
  case True
  with n have "equalCF f (snd u) (snd v)" by (simp add: equalCF_def)
  then have "equalCF f (snd v) (snd u)" by (rule CF_sym [OF C u v])
  with t show ?thesis by (simp add: prec_def)
next
  case False
  with n have "greaterCF f (snd u) (snd v)" by (simp add: greaterCF_def)
  then have "lessCF f (snd v) (snd u)" using CF_less_greater [OF C v u] by simp
  then show ?thesis by (simp add: prec_def)
qed

lemma prec_not_less:
  assumes C: "consistent_on f xs" and u: "snd u \<in> set xs" and v: "snd v \<in> set xs"
    and p: "prec f u v"
  shows "\<exists>n. f (snd v) (snd u) = Inr n \<and> 0 \<le> n"
proof -
  from p have "greaterCF f (snd v) (snd u) \<or> equalCF f (snd v) (snd u)"
    unfolding prec_def using CF_less_greater [OF C u v] CF_sym [OF C u v] by blast
  then show ?thesis
    by (auto simp: greaterCF_def equalCF_def split: sum.splits)
qed

subsection \<open>The sort under a consistent comparator\<close>

text \<open>
  The binary search ends on the index that parts the sorted part into the elements
  before the pivot and those after it.
\<close>

lemma binarySearch_partition:
  fixes f :: "'a \<Rightarrow> 'a \<Rightarrow> error + int" and s :: "(nat \<times> 'a) list"
  assumes C: "consistent_on f xs"
    and mem: "snd pivot \<in> set xs" "\<forall>e\<in>set s. snd e \<in> set xs"
    and srt: "sorted_wrt (prec f) s"
    and tags: "\<forall>e\<in>set s. fst e < fst pivot"
  shows "right \<le> length s \<Longrightarrow>
         \<forall>i<left. prec f (s ! i) pivot \<Longrightarrow>
         \<forall>i. right \<le> i \<and> i < length s \<longrightarrow> prec f pivot (s ! i) \<Longrightarrow>
         binarySearch (\<lambda>u v. f (snd u) (snd v)) pivot s left right = Inr k \<Longrightarrow>
         (\<forall>i<k. i < length s \<longrightarrow> prec f (s ! i) pivot) \<and>
         (\<forall>i. k \<le> i \<and> i < length s \<longrightarrow> prec f pivot (s ! i))"
proof (induction "right - left" arbitrary: left right rule: less_induct)
  case less
  let ?g = "\<lambda>(u :: nat \<times> 'a) (v :: nat \<times> 'a). f (snd u) (snd v)"
  show ?case
  proof (cases "left < right")
    case False
    with less.prems(4) have k: "k = left" by (simp add: binarySearch_done)
    have "\<forall>i. k \<le> i \<and> i < length s \<longrightarrow> prec f pivot (s ! i)"
      using less.prems(3) False k by simp
    with less.prems(2) k show ?thesis by simp
  next
    case True
    define mid where "mid = left + (right - left) div 2"
    have m: "left \<le> mid" "mid < right" using True by (simp_all add: mid_def)
    have ml: "mid < length s" using m less.prems(1) by simp
    then have ms: "s ! mid \<in> set s" by simp
    from less.prems(4) True obtain ord where ord: "f (snd pivot) (snd (s ! mid)) = Inr ord"
      by (simp add: binarySearch_step mid_def split: sum.splits)
    show ?thesis
    proof (cases "ord < 0")
      case lt: True
      with less.prems(4) True ord have b: "binarySearch ?g pivot s left mid = Inr k"
        by (simp add: binarySearch_step mid_def)
      have pm: "prec f pivot (s ! mid)" using ord lt by (rule prec_of_less)
      have "\<forall>i. mid \<le> i \<and> i < length s \<longrightarrow> prec f pivot (s ! i)"
      proof (intro allI impI, elim conjE)
        fix i assume i: "mid \<le> i" "i < length s"
        show "prec f pivot (s ! i)"
        proof (cases "i = mid")
          case True
          with pm show ?thesis by simp
        next
          case False
          with i have "mid < i" by simp
          with srt i(2) have "prec f (s ! mid) (s ! i)" by (simp add: sorted_wrt_iff_nth_less)
          with pm show ?thesis
            using prec_trans [OF C mem(1), of "s ! mid" "s ! i"] mem(2) ms i(2) by simp
        qed
      qed
      with less.prems(2) b show ?thesis
        using m less.prems(1) by (intro less.hyps [of mid left]) simp_all
    next
      case ge: False
      with less.prems(4) True ord have b: "binarySearch ?g pivot s (mid + 1) right = Inr k"
        by (simp add: binarySearch_step mid_def)
      have mp: "prec f (s ! mid) pivot"
        using C mem(1) _ ord
      proof (rule prec_of_not_less)
        show "snd (s ! mid) \<in> set xs" using mem(2) ms by simp
        show "0 \<le> ord" using ge by simp
        show "fst (s ! mid) < fst pivot" using tags ms by simp
      qed
      have "\<forall>i<mid + 1. prec f (s ! i) pivot"
      proof (intro allI impI)
        fix i assume i: "i < mid + 1"
        show "prec f (s ! i) pivot"
        proof (cases "i = mid")
          case True
          with mp show ?thesis by simp
        next
          case False
          with i have im: "i < mid" by simp
          with srt ml have "prec f (s ! i) (s ! mid)" by (simp add: sorted_wrt_iff_nth_less)
          moreover have "s ! i \<in> set s" using im ml by simp
          ultimately show ?thesis
            using mp prec_trans [OF C _ _ mem(1), of "s ! i" "s ! mid"] mem(2) ms by simp
        qed
      qed
      with less.prems(1,3) b show ?thesis
        using m by (intro less.hyps [of right "mid + 1"]) simp_all
    qed
  qed
qed

lemma insert_at_sorted:
  assumes srt: "sorted_wrt P s"
    and lo: "\<forall>i<k. i < length s \<longrightarrow> P (s ! i) pivot"
    and hi: "\<forall>i. k \<le> i \<and> i < length s \<longrightarrow> P pivot (s ! i)"
  shows "sorted_wrt P (take k s @ pivot # drop k s)"
proof -
  have 1: "sorted_wrt P (take k s)" using srt by (rule sorted_wrt_take)
  have 2: "sorted_wrt P (drop k s)" using srt by (rule sorted_wrt_drop)
  have 3: "\<forall>x\<in>set (take k s). P x pivot"
  proof
    fix x assume "x \<in> set (take k s)"
    then obtain i where "i < length (take k s)" "take k s ! i = x"
      by (auto simp: in_set_conv_nth)
    then have "i < k" "i < length s" "s ! i = x" by simp_all
    with lo show "P x pivot" by blast
  qed
  have 4: "\<forall>y\<in>set (drop k s). P pivot y"
  proof
    fix y assume "y \<in> set (drop k s)"
    then obtain j where "j < length (drop k s)" "drop k s ! j = y"
      by (auto simp: in_set_conv_nth)
    then have "k \<le> k + j" "k + j < length s" "s ! (k + j) = y" by simp_all
    with hi show "P pivot y" by blast
  qed
  have 5: "\<forall>x\<in>set (take k s). \<forall>y\<in>set (drop k s). P x y"
    using srt by (metis append_take_drop_id sorted_wrt_append)
  from 1 2 3 4 5 show ?thesis by (auto simp: sorted_wrt_append)
qed

lemma binaryInsertionSort_sorted:
  fixes f :: "'a \<Rightarrow> 'a \<Rightarrow> error + int"
  assumes C: "consistent_on f xs"
  shows "\<forall>e\<in>set sp \<union> set rest. snd e \<in> set xs \<Longrightarrow>
         sorted_wrt (prec f) sp \<Longrightarrow>
         \<forall>u\<in>set sp. \<forall>v\<in>set rest. fst u < fst v \<Longrightarrow>
         sorted_wrt (<) (map fst rest) \<Longrightarrow>
         binaryInsertionSort (\<lambda>u v. f (snd u) (snd v)) sp rest = Inr ts \<Longrightarrow>
         sorted_wrt (prec f) ts"
proof (induction rest arbitrary: sp)
  case Nil
  then show ?case by simp
next
  case (Cons pivot rest)
  let ?g = "\<lambda>(u :: nat \<times> 'a) (v :: nat \<times> 'a). f (snd u) (snd v)"
  from Cons.prems(5) obtain k where
    k: "binarySearch ?g pivot sp 0 (length sp) = Inr k"
    and b: "binaryInsertionSort ?g (take k sp @ pivot # drop k sp) rest = Inr ts"
    by (auto split: sum.splits)
  have part: "(\<forall>i<k. i < length sp \<longrightarrow> prec f (sp ! i) pivot) \<and>
        (\<forall>i. k \<le> i \<and> i < length sp \<longrightarrow> prec f pivot (sp ! i))"
  proof (rule binarySearch_partition [OF C _ _ Cons.prems(2) _ _ _ _ k])
    show "snd pivot \<in> set xs" using Cons.prems(1) by simp
    show "\<forall>e\<in>set sp. snd e \<in> set xs" using Cons.prems(1) by simp
    show "\<forall>e\<in>set sp. fst e < fst pivot" using Cons.prems(3) by simp
    show "length sp \<le> length sp" by simp
    show "\<forall>i<0. prec f (sp ! i) pivot" by simp
    show "\<forall>i. length sp \<le> i \<and> i < length sp \<longrightarrow> prec f pivot (sp ! i)" by auto
  qed
  let ?sp = "take k sp @ pivot # drop k sp"
  have set_sp: "set ?sp = insert pivot (set sp)"
    by (metis append_take_drop_id list.simps(15) set_append Un_insert_right)
  have "sorted_wrt (prec f) ?sp"
    using Cons.prems(2) part by (intro insert_at_sorted) blast+
  moreover have "\<forall>e\<in>set ?sp \<union> set rest. snd e \<in> set xs"
    using Cons.prems(1) set_sp by auto
  moreover have "\<forall>u\<in>set ?sp. \<forall>v\<in>set rest. fst u < fst v"
    using Cons.prems(3,4) set_sp by auto
  moreover have "sorted_wrt (<) (map fst rest)" using Cons.prems(4) by simp
  ultimately show ?case using b by (intro Cons.IH [of ?sp])
qed

text \<open>The run that \<^verbatim>\<open>CountAndMakeRun\<close> takes.\<close>

lemma countRun_run:
  "countRun g d p xs = Inr n \<Longrightarrow>
   successively (\<lambda>a b. \<exists>m. g b a = Inr m \<and> (if d then m < 0 else 0 \<le> m)) (p # take n xs)"
proof (induction xs arbitrary: p n)
  case Nil
  then show ?case by simp
next
  case (Cons x xs)
  from Cons.prems obtain ord where ord: "g x p = Inr ord" by (auto split: sum.splits)
  show ?case
  proof (cases "if d then 0 \<le> ord else ord < 0")
    case True
    with Cons.prems ord have "n = 0" by (cases d) simp_all
    then show ?thesis by simp
  next
    case False
    with Cons.prems ord obtain n' where n': "countRun g d x xs = Inr n'" and n: "n = Suc n'"
      by (cases d) (auto split: sum.splits)
    from Cons.IH [OF n'] False ord show ?thesis
      unfolding n by (cases d) auto
  qed
qed

lemma successively_conj:
  "successively P xs \<Longrightarrow> sorted_wrt R xs \<Longrightarrow> successively (\<lambda>a b. P a b \<and> R a b) xs"
  by (induction xs rule: induct_list012) auto

lemma Array_sort_sorted:
  fixes f :: "'a \<Rightarrow> 'a \<Rightarrow> error + int" and ws :: "(nat \<times> 'a) list"
  assumes C: "consistent_on f xs"
    and mem: "\<forall>e\<in>set ws. snd e \<in> set xs"
    and tags: "sorted_wrt (<) (map fst ws)"
    and s: "Array_sort (\<lambda>u v. f (snd u) (snd v)) ws = Inr ts"
  shows "sorted_wrt (prec f) ts"
proof (cases "(\<lambda>(u :: nat \<times> 'a) (v :: nat \<times> 'a). f (snd u) (snd v), ws)" rule: Array_sort.cases)
  case (1 comparefn)
  with s show ?thesis by simp
next
  case (2 comparefn x)
  with s show ?thesis by auto
next
  case (3 comparefn h l rest)
  let ?g = "\<lambda>(u :: nat \<times> 'a) (v :: nat \<times> 'a). f (snd u) (snd v)"
  from 3 have ws: "ws = h # l # rest" by simp
  from Array_sort_Inr [OF s [unfolded ws]] obtain ord :: int and n where
    ord: "f (snd l) (snd h) = Inr ord"
    and n: "countRun ?g (ord < 0) l rest = Inr n"
    and b: "binaryInsertionSort ?g
          (if ord < 0 then rev (take (Suc (Suc n)) (h # l # rest))
           else take (Suc (Suc n)) (h # l # rest))
          (drop (Suc (Suc n)) (h # l # rest)) = Inr ts"
    by blast
  let ?Q = "\<lambda>(a :: nat \<times> 'a) (b :: nat \<times> 'a).
              \<exists>m. f (snd b) (snd a) = Inr m \<and> (if ord < 0 then m < 0 else 0 \<le> m)"
  let ?run = "take (Suc (Suc n)) ws"
  let ?rem = "drop (Suc (Suc n)) ws"
  have run_eq: "?run = h # l # take n rest" by (simp add: ws)
  have "successively ?Q (l # take n rest)" using countRun_run [OF n] .
  with ord have chain: "successively ?Q ?run" unfolding run_eq by simp
  have run_tags: "sorted_wrt (\<lambda>a b. fst a < fst b) ?run"
    using tags by (simp add: sorted_wrt_map sorted_wrt_take)
  have run_mem: "\<forall>e\<in>set ?run. snd e \<in> set xs"
    using mem by (meson in_set_takeD)
  have trans: "prec f x y \<Longrightarrow> prec f y z \<Longrightarrow> prec f x z"
    if "snd x \<in> set xs" "snd y \<in> set xs" "snd z \<in> set xs" for x y z
    using prec_trans [OF C that] by blast
  have sorted_run: "sorted_wrt (prec f) (if ord < 0 then rev ?run else ?run)"
  proof (cases "ord < 0")
    case True
    have "successively (\<lambda>a b. prec f b a) ?run"
      using chain
    proof (rule successively_mono)
      fix a b assume "?Q a b"
      with True obtain m where "f (snd b) (snd a) = Inr m" "m < 0" by auto
      then show "prec f b a" by (rule prec_of_less)
    qed
    then have "successively (prec f) (rev ?run)" by simp
    moreover have "\<forall>e\<in>set (rev ?run). snd e \<in> set xs" using run_mem by simp
    ultimately have "sorted_wrt (prec f) (rev ?run)"
      using trans by (subst successively_iff_sorted_wrt_strong [symmetric]) blast+
    with True show ?thesis by simp
  next
    case False
    have "successively (\<lambda>a b. ?Q a b \<and> fst a < fst b) ?run"
      using chain run_tags by (rule successively_conj)
    then have "successively (prec f) ?run"
    proof (rule successively_mono)
      fix a b assume ab: "a \<in> set ?run" "b \<in> set ?run" and q: "?Q a b \<and> fst a < fst b"
      with False obtain m where m: "f (snd b) (snd a) = Inr m" "0 \<le> m" by auto
      from C _ _ m show "prec f a b"
      proof (rule prec_of_not_less)
        show "snd b \<in> set xs" "snd a \<in> set xs" using ab run_mem by simp_all
        show "fst a < fst b" using q by simp
      qed
    qed
    then have "sorted_wrt (prec f) ?run"
      using trans run_mem by (subst successively_iff_sorted_wrt_strong [symmetric]) blast+
    with False show ?thesis by simp
  qed
  have split: "ws = ?run @ ?rem" by simp
  have tags': "sorted_wrt (\<lambda>a b. fst a < fst b) (?run @ ?rem)"
    using tags by (simp add: sorted_wrt_map)
  have cross: "\<forall>u\<in>set ?run. \<forall>v\<in>set ?rem. fst u < fst v"
    using tags' unfolding sorted_wrt_append by blast
  have rem_tags: "sorted_wrt (<) (map fst ?rem)"
    using tags' unfolding sorted_wrt_append by (simp add: sorted_wrt_map)
  have set_run: "set (if ord < 0 then rev ?run else ?run) = set ?run"
    by (cases "ord < 0") (simp_all only: set_rev if_True if_False)
  show ?thesis
  proof (rule binaryInsertionSort_sorted [OF C _ sorted_run _ rem_tags])
    show "\<forall>e\<in>set (if ord < 0 then rev ?run else ?run) \<union> set ?rem. snd e \<in> set xs"
      unfolding set_run using mem by (metis Un_iff in_set_takeD in_set_dropD)
    show "\<forall>u\<in>set (if ord < 0 then rev ?run else ?run). \<forall>v\<in>set ?rem. fst u < fst v"
      unfolding set_run using cross .
    show "binaryInsertionSort ?g (if ord < 0 then rev ?run else ?run) ?rem = Inr ts"
      using b unfolding ws .
  qed
qed

text \<open>Tagging the elements with their positions.\<close>

lemma Array_sort_tagged:
  fixes f :: "'a \<Rightarrow> 'a \<Rightarrow> error + int"
  assumes "Array_sort f xs = Inr ys"
  shows "\<exists>ts. Array_sort (\<lambda>u v. f (snd u) (snd v)) (zip [0..<length xs] xs) = Inr ts \<and>
               ys = map snd ts"
proof -
  let ?ws = "zip [0..<length xs] xs"
  have l: "list_all2 (\<lambda>(t :: nat \<times> 'a) x. snd t = x) ?ws xs"
    by (simp add: list_all2_conv_all_nth)
  have "case Array_sort f xs of
          Inl e \<Rightarrow> Array_sort (\<lambda>u v. f (snd u) (snd v)) ?ws = Inl e
        | Inr ys' \<Rightarrow> (\<exists>ts. Array_sort (\<lambda>u v. f (snd u) (snd v)) ?ws = Inr ts \<and>
                             list_all2 (\<lambda>(t :: nat \<times> 'a) x. snd t = x) ts ys')"
    using l by (rule Array_sort_rel) simp
  with assms obtain ts where ts: "Array_sort (\<lambda>u v. f (snd u) (snd v)) ?ws = Inr ts"
    and r: "list_all2 (\<lambda>(t :: nat \<times> 'a) x. snd t = x) ts ys"
    by auto
  from r have "ys = map snd ts"
    by (induction ts ys rule: list_all2_induct) simp_all
  with ts show ?thesis by blast
qed

lemma Array_sort_stable:
  fixes f :: "'a \<Rightarrow> 'a \<Rightarrow> error + int"
  assumes C: "consistent_on f xs" and s: "Array_sort f xs = Inr ys"
  shows "\<exists>idx. mset idx = mset [0..<length xs] \<and> ys = map (\<lambda>i. xs ! i) idx \<and>
           (\<forall>p q. p < length xs \<and> q < length xs \<and> idx ! p < idx ! q \<and>
                  f (xs ! (idx ! p)) (xs ! (idx ! q)) = Inr 0 \<longrightarrow> p < q)"
proof -
  define ws where "ws = zip [0..<length xs] xs"
  have tags: "map fst ws = [0..<length xs]" by (simp add: ws_def)
  from Array_sort_tagged [OF s] obtain ts where
    ts: "Array_sort (\<lambda>u v. f (snd u) (snd v)) ws = Inr ts" and ys: "ys = map snd ts"
    unfolding ws_def by blast
  define idx where "idx = map fst ts"
  have m: "mset ts = mset ws" using ts by (rule Array_sort_mset)
  have "mset idx = mset (map fst ws)" unfolding idx_def using m by (metis mset_map)
  then have 1: "mset idx = mset [0..<length xs]" by (simp add: tags)
  have mem: "\<forall>t\<in>set ts. snd t = xs ! fst t \<and> fst t < length xs"
  proof
    fix t assume "t \<in> set ts"
    then have "t \<in> set ws" using m by (metis set_mset_mset)
    then show "snd t = xs ! fst t \<and> fst t < length xs"
      unfolding ws_def by (auto simp: in_set_zip)
  qed
  then have 2: "ys = map (\<lambda>i. xs ! i) idx"
    by (simp add: ys idx_def)
  have len: "length ts = length xs"
    using m by (metis size_mset length_zip ws_def length_upt min.idem diff_zero)
  have wmem: "\<forall>e\<in>set ws. snd e \<in> set xs"
    unfolding ws_def by (auto simp: in_set_zip)
  have sw: "sorted_wrt (prec f) ts"
    using C wmem _ ts by (rule Array_sort_sorted) (simp add: tags)
  have 3: "\<forall>p q. p < length xs \<and> q < length xs \<and> idx ! p < idx ! q \<and>
                  f (xs ! (idx ! p)) (xs ! (idx ! q)) = Inr 0 \<longrightarrow> p < q"
  proof (intro allI impI, elim conjE)
    fix p q
    assume p: "p < length xs" and q: "q < length xs" and lt: "idx ! p < idx ! q"
      and tie: "f (xs ! (idx ! p)) (xs ! (idx ! q)) = Inr 0"
    have tp: "ts ! p \<in> set ts" and tq: "ts ! q \<in> set ts" using p q len by simp_all
    have sp: "snd (ts ! p) = xs ! (idx ! p)" "snd (ts ! q) = xs ! (idx ! q)"
      using mem tp tq p q len by (simp_all add: idx_def)
    have fp: "fst (ts ! p) = idx ! p" "fst (ts ! q) = idx ! q"
      using p q len by (simp_all add: idx_def)
    have inx: "xs ! (idx ! p) \<in> set xs" "xs ! (idx ! q) \<in> set xs"
      using mem tp tq fp by (metis nth_mem)+
    show "p < q"
    proof (rule ccontr)
      assume "\<not> p < q"
      with lt have qp: "q < p" by (cases "p = q") auto
      with sw p len have "prec f (ts ! q) (ts ! p)"
        by (simp add: sorted_wrt_iff_nth_less)
      then have "lessCF f (xs ! (idx ! q)) (xs ! (idx ! p)) \<or>
                 (equalCF f (xs ! (idx ! q)) (xs ! (idx ! p)) \<and> idx ! q < idx ! p)"
        by (simp add: prec_def sp fp)
      with lt have l: "lessCF f (xs ! (idx ! q)) (xs ! (idx ! p))" by auto
      from tie have "equalCF f (xs ! (idx ! p)) (xs ! (idx ! q))" by (simp add: equalCF_def)
      then have "equalCF f (xs ! (idx ! q)) (xs ! (idx ! p))"
        by (rule CF_sym [OF C inx])
      with l show False by (meson CF_excl)
    qed
  qed
  from 1 2 3 show ?thesis by blast
qed

lemma sorted_in_order:
  fixes f :: "'a \<Rightarrow> 'a \<Rightarrow> error + int"
  assumes C: "consistent_on f xs"
  shows "\<forall>e\<in>set ts. snd e \<in> set xs \<Longrightarrow> sorted_wrt (prec f) ts \<Longrightarrow> in_order f (map snd ts)"
proof (induction ts rule: induct_list012)
  case 1
  show ?case by simp
next
  case (2 x)
  show ?case by simp
next
  case (3 x y zs)
  have "prec f x y" using 3(4) by simp
  then have "\<exists>n. f (snd y) (snd x) = Inr n \<and> 0 \<le> n"
    using 3(3) by (intro prec_not_less [OF C]) simp_all
  moreover have "in_order f (map snd (y # zs))" using 3(2,3,4) by simp
  ultimately show ?case by auto
qed

lemma Array_sort_in_order:
  fixes f :: "'a \<Rightarrow> 'a \<Rightarrow> error + int"
  assumes C: "consistent_on f xs" and s: "Array_sort f xs = Inr ys"
  shows "in_order f ys"
proof -
  define ws where "ws = zip [0..<length xs] xs"
  from Array_sort_tagged [OF s] obtain ts where
    ts: "Array_sort (\<lambda>u v. f (snd u) (snd v)) ws = Inr ts" and ys: "ys = map snd ts"
    unfolding ws_def by blast
  have wmem: "\<forall>e\<in>set ws. snd e \<in> set xs"
    unfolding ws_def by (auto simp: in_set_zip)
  have sw: "sorted_wrt (prec f) ts"
    using C wmem _ ts by (rule Array_sort_sorted) (simp add: ws_def)
  have "\<forall>e\<in>set ts. snd e \<in> set xs"
    using wmem Array_sort_set [OF ts] by simp
  with C have "in_order f (map snd ts)" using sw by (rule sorted_in_order)
  then show ?thesis by (simp add: ys)
qed

subsection \<open>The loop over the sorted rows\<close>

lemma sortSubRows_iff:
  "sortSubRows compare rows sortKeys columnOptions = Inr out \<longleftrightarrow>
   list_all2 (sub_sorted compare sortKeys columnOptions) rows out"
proof (induction rows arbitrary: out)
  case Nil
  show ?case by auto
next
  case (Cons row rest)
  show ?case
  proof (cases out)
    case Nil
    then show ?thesis by (auto split: option.splits sum.splits)
  next
    case out: (Cons o' out')
    have "sortSubRows compare (row # rest) sortKeys columnOptions = Inr (o' # out') \<longleftrightarrow>
          sub_sorted compare sortKeys columnOptions row o' \<and>
          sortSubRows compare rest sortKeys columnOptions = Inr out'"
      by (auto simp: sub_sorted_def split: option.splits sum.splits)
    then show ?thesis
      unfolding out using Cons.IH [of out'] by simp
  qed
qed

lemma getSortedRows_iff:
  "getSortedRows compare rows sortKeys columnOptions = Inr out \<longleftrightarrow>
   (\<exists>sortedRows. Array_sort (compareFn compare sortKeys columnOptions) rows = Inr sortedRows \<and>
      list_all2 (sub_sorted compare sortKeys columnOptions) sortedRows out)"
  by (auto simp: getSortedRows.simps sortSubRows_iff split: sum.splits)

lemma sub_sorted_fields:
  "sub_sorted compare sortKeys columnOptions row row' \<Longrightarrow>
   others row' = others row \<and> cellForId row' = cellForId row \<and>
   (case subRows row of
      None \<Rightarrow> subRows row' = None
    | Some sub \<Rightarrow> (\<exists>ss. getSortedRows compare sub sortKeys columnOptions = Inr ss \<and>
                         subRows row' = Some ss))"
  by (auto simp: sub_sorted_def getCloned_def split: option.splits sum.splits)

lemma compareFn_cells:
  assumes "cellForId a' = cellForId a" and "cellForId b' = cellForId b"
  shows "compareFn compare sortKeys columnOptions a' b' =
         compareFn compare sortKeys columnOptions a b"
proof (induction sortKeys)
  case Nil
  show ?case by simp
next
  case (Cons key keys)
  show ?case unfolding compareFn.simps assms Cons.IH ..
qed

subsection \<open>When the sorter returns\<close>

lemma every_level_top: "every_level P rows \<Longrightarrow> P rows"
  by (simp add: every_level.simps)

lemma every_level_sub:
  "every_level P rows \<Longrightarrow> row \<in> set rows \<Longrightarrow> subRows row = Some sub \<Longrightarrow> every_level P sub"
  by (subst (asm) every_level.simps) (auto split: option.splits)

lemma compareFn_returns:
  assumes "\<forall>key\<in>set sortKeys. cellForId a (id' key) \<noteq> None"
    and "\<forall>key\<in>set sortKeys. cellForId b (id' key) \<noteq> None"
  shows "\<exists>n. compareFn compare sortKeys columnOptions a b = Inr n"
  using assms
proof (induction sortKeys)
  case Nil
  show ?case by simp
next
  case (Cons key keys)
  then obtain n where n: "compareFn compare keys columnOptions a b = Inr n" by auto
  from Cons.prems obtain cellA cellB where
    "cellForId a (id' key) = Some cellA" "cellForId b (id' key) = Some cellB" by auto
  with n show ?case by (cases cellA) (simp_all add: Let_def)
qed

lemma getSortedRows_returns_aux:
  fixes rows :: "'a BodyRow list"
  shows "every_level (has_cells sortKeys) rows \<Longrightarrow>
         \<exists>out. getSortedRows compare rows sortKeys columnOptions = Inr out"
    and "(\<forall>row\<in>set rows. \<forall>sub. subRows row = Some sub \<longrightarrow> every_level (has_cells sortKeys) sub) \<Longrightarrow>
         \<exists>out. sortSubRows compare rows sortKeys columnOptions = Inr out"
proof (induction compare rows sortKeys columnOptions and compare rows sortKeys columnOptions
    rule: getSortedRows_sortSubRows.induct)
  case (1 compare rows sortKeys columnOptions)
  let ?f = "compareFn compare sortKeys columnOptions :: 'a BodyRow \<Rightarrow> 'a BodyRow \<Rightarrow> error + int"
  have hc: "has_cells sortKeys rows" using 1(2) by (rule every_level_top)
  have "\<forall>x\<in>set rows. \<forall>y\<in>set rows. \<exists>n. ?f x y = Inr n"
    using hc by (auto simp: has_cells_def intro!: compareFn_returns)
  then have "\<exists>sortedRows. Array_sort ?f rows = Inr sortedRows"
    by (rule Array_sort_returns)
  then obtain sortedRows where s: "Array_sort ?f rows = Inr sortedRows" ..
  have "\<forall>row\<in>set sortedRows. \<forall>sub. subRows row = Some sub \<longrightarrow>
          every_level (has_cells sortKeys) sub"
    using 1(2) Array_sort_set [OF s] by (auto intro: every_level_sub)
  from 1(1) [OF s this] s show ?case by (simp add: getSortedRows.simps)
next
  case (2 compare sortKeys columnOptions)
  show ?case by simp
next
  case (3 compare row rest sortKeys columnOptions)
  have lv: "\<forall>r\<in>set rest. \<forall>sub. subRows r = Some sub \<longrightarrow> every_level (has_cells sortKeys) sub"
    using 3(4) by simp
  show ?case
  proof (cases "subRows row")
    case None
    from 3(1) [OF None lv] None show ?thesis by auto
  next
    case (Some sub)
    have "every_level (has_cells sortKeys) sub" using 3(4) Some by simp
    from 3(2) [OF Some this] obtain ss where
      g: "getSortedRows compare sub sortKeys columnOptions = Inr ss" by blast
    from 3(3) [OF Some g lv] obtain rest' where
      "sortSubRows compare rest sortKeys columnOptions = Inr rest'" by blast
    with g Some show ?thesis by simp
  qed
qed

subsection \<open>Shape of the result\<close>

text \<open>
  C5. On a forest whose rows have, at every level, a cell for the column of every key,
  \<^verbatim>\<open>getSortedRows\<close> returns. Whenever it returns, its result has the length of the
  input and is, row by row, made from a reordering of the input rows: a row without
  \<^verbatim>\<open>subRows\<close> is kept with that field absent, and a row with \<^verbatim>\<open>subRows\<close> keeps its
  other fields and has \<^verbatim>\<open>subRows\<close> replaced by the result of \<^verbatim>\<open>getSortedRows\<close> on
  those sub-rows with the same keys and column options.
\<close>

theorem getSortedRows_shape:
  "(every_level (has_cells sortKeys) rows \<longrightarrow>
      (\<exists>out. getSortedRows compare rows sortKeys columnOptions = Inr out)) \<and>
   (getSortedRows compare rows sortKeys columnOptions = Inr out \<longrightarrow>
      length out = length rows \<and>
      (\<exists>sortedRows. mset sortedRows = mset rows \<and>
         list_all2
           (\<lambda>row row'. others row' = others row \<and> cellForId row' = cellForId row \<and>
              (case subRows row of
                 None \<Rightarrow> subRows row' = None
               | Some sub \<Rightarrow>
                   (\<exists>sortedSubRows.
                      getSortedRows compare sub sortKeys columnOptions = Inr sortedSubRows \<and>
                      subRows row' = Some sortedSubRows)))
           sortedRows out))"
proof (intro conjI impI)
  assume "every_level (has_cells sortKeys) rows"
  then show "\<exists>out. getSortedRows compare rows sortKeys columnOptions = Inr out"
    by (rule getSortedRows_returns_aux(1))
next
  assume r: "getSortedRows compare rows sortKeys columnOptions = Inr out"
  then obtain sortedRows where
    s: "Array_sort (compareFn compare sortKeys columnOptions) rows = Inr sortedRows"
    and l: "list_all2 (sub_sorted compare sortKeys columnOptions) sortedRows out"
    by (auto simp: getSortedRows_iff)
  have "length out = length sortedRows" using l by (simp add: list_all2_lengthD)
  also have "\<dots> = length rows" using s by (rule Array_sort_length)
  finally show "length out = length rows" .
  have m: "mset sortedRows = mset rows" using s by (rule Array_sort_mset)
  have "list_all2
        (\<lambda>row row'. others row' = others row \<and> cellForId row' = cellForId row \<and>
           (case subRows row of
              None \<Rightarrow> subRows row' = None
            | Some sub \<Rightarrow>
                (\<exists>sortedSubRows.
                   getSortedRows compare sub sortKeys columnOptions = Inr sortedSubRows \<and>
                   subRows row' = Some sortedSubRows)))
        sortedRows out"
    using l by (rule list_all2_mono) (rule sub_sorted_fields)
  with m show "\<exists>sortedRows. mset sortedRows = mset rows \<and>
      list_all2
        (\<lambda>row row'. others row' = others row \<and> cellForId row' = cellForId row \<and>
           (case subRows row of
              None \<Rightarrow> subRows row' = None
            | Some sub \<Rightarrow>
                (\<exists>sortedSubRows.
                   getSortedRows compare sub sortKeys columnOptions = Inr sortedSubRows \<and>
                   subRows row' = Some sortedSubRows)))
        sortedRows out"
    by blast
qed

theorem getSortedRows_shape_witness:
  "every_level (has_cells [\<lparr>id' = ''v'', order' = asc\<rparr>]) family \<and>
   getSortedRows compare_spec family [\<lparr>id' = ''v'', order' = asc\<rparr>] Map.empty = Inr family_sorted \<and>
   length family_sorted = length family \<and>
   (\<exists>sortedRows. mset sortedRows = mset family \<and>
      list_all2
        (\<lambda>row row'. others row' = others row \<and> cellForId row' = cellForId row \<and>
           (case subRows row of
              None \<Rightarrow> subRows row' = None
            | Some sub \<Rightarrow>
                (\<exists>sortedSubRows.
                   getSortedRows compare_spec sub [\<lparr>id' = ''v'', order' = asc\<rparr>] Map.empty
                     = Inr sortedSubRows \<and>
                   subRows row' = Some sortedSubRows)))
        sortedRows family_sorted)"
proof -
  have c: "every_level (has_cells [\<lparr>id' = ''v'', order' = asc\<rparr>]) family"
    by (simp add: every_level.simps has_cells_def family_def dataRow_def)
  have h: "getSortedRows compare_spec family [\<lparr>id' = ''v'', order' = asc\<rparr>] Map.empty
             = Inr family_sorted"
    by (simp add: getSortedRows.simps family_def family_sorted_def dataRow_def getCloned_def)
  from getSortedRows_shape
    [of "[\<lparr>id' = ''v'', order' = asc\<rparr>]" family compare_spec Map.empty family_sorted] c h
  show ?thesis by blast
qed

subsection \<open>Empty key sequence\<close>

lemma in_order_all_tie: "(\<And>x y. f x y = Inr 0) \<Longrightarrow> in_order f xs"
  by (induction xs rule: induct_list012) simp_all

lemma Array_sort_all_tie: "(\<And>x y. f x y = Inr 0) \<Longrightarrow> Array_sort f xs = Inr xs"
  by (intro in_order_fixed in_order_all_tie)

lemma getCloned_same: "subRows row = Some sub \<Longrightarrow> getCloned row sub = row"
  by (cases row) (simp add: getCloned_def)

lemma getSortedRows_no_keys_aux:
  "getSortedRows compare rows sortKeys columnOptions =
     (if sortKeys = [] then Inr rows else getSortedRows compare rows sortKeys columnOptions)"
  "sortSubRows compare rows sortKeys columnOptions =
     (if sortKeys = [] then Inr rows else sortSubRows compare rows sortKeys columnOptions)"
proof (induction compare rows sortKeys columnOptions and compare rows sortKeys columnOptions
    rule: getSortedRows_sortSubRows.induct)
  case (1 compare rows sortKeys columnOptions)
  show ?case
  proof (cases "sortKeys = []")
    case True
    have "Array_sort (compareFn compare [] columnOptions) rows = Inr rows"
      by (rule Array_sort_all_tie) simp
    with 1 [of rows] True show ?thesis by (simp add: getSortedRows.simps)
  next
    case False
    then show ?thesis by simp
  qed
next
  case (2 compare sortKeys columnOptions)
  show ?case by simp
next
  case (3 compare row rest sortKeys columnOptions)
  show ?case
  proof (cases "sortKeys = []")
    case True
    show ?thesis
    proof (cases "subRows row")
      case None
      with 3(1) True show ?thesis by simp
    next
      case (Some sub)
      from 3(2) [OF Some] True have g: "getSortedRows compare sub [] columnOptions = Inr sub"
        by simp
      from 3(3) [OF Some, of sub] g True
      have "sortSubRows compare rest [] columnOptions = Inr rest" by simp
      with g Some True show ?thesis by (simp add: getCloned_same)
    qed
  next
    case False
    then show ?thesis by simp
  qed
qed

lemma getSortedRows_no_keys: "getSortedRows compare rows [] columnOptions = Inr rows"
  using getSortedRows_no_keys_aux(1) [of compare rows "[]" columnOptions] by simp

subsection \<open>Stability\<close>

lemma getSortedRows_stable0:
  assumes C: "consistent_on (compareFn compare sortKeys columnOptions) rows"
    and r: "getSortedRows compare rows sortKeys columnOptions = Inr out"
  shows "\<exists>idx. mset idx = mset [0..<length rows] \<and> length out = length rows \<and>
        (\<forall>p<length rows. sub_sorted compare sortKeys columnOptions (rows ! (idx ! p)) (out ! p)) \<and>
        (\<forall>p q. p < length rows \<and> q < length rows \<and> idx ! p < idx ! q \<and>
               compareFn compare sortKeys columnOptions (rows ! (idx ! p)) (rows ! (idx ! q)) = Inr 0
               \<longrightarrow> p < q)"
proof -
  from r obtain sortedRows where
    s: "Array_sort (compareFn compare sortKeys columnOptions) rows = Inr sortedRows"
    and l: "list_all2 (sub_sorted compare sortKeys columnOptions) sortedRows out"
    by (auto simp: getSortedRows_iff)
  from Array_sort_stable [OF C s] obtain idx where
    m: "mset idx = mset [0..<length rows]"
    and srt: "sortedRows = map (\<lambda>i. rows ! i) idx"
    and st: "\<forall>p q. p < length rows \<and> q < length rows \<and> idx ! p < idx ! q \<and>
           compareFn compare sortKeys columnOptions (rows ! (idx ! p)) (rows ! (idx ! q)) = Inr 0
           \<longrightarrow> p < q"
    by blast
  have li: "length idx = length rows" using m by (metis size_mset length_upt diff_zero)
  have lo: "length out = length rows" using list_all2_lengthD [OF l] srt li by simp
  have "\<forall>p<length rows. sub_sorted compare sortKeys columnOptions (rows ! (idx ! p)) (out ! p)"
  proof (intro allI impI)
    fix p assume p: "p < length rows"
    have ls: "length sortedRows = length rows" by (simp add: srt li)
    with p have "p < length sortedRows" by simp
    with l have "sub_sorted compare sortKeys columnOptions (sortedRows ! p) (out ! p)"
      by (rule list_all2_nthD)
    moreover have "sortedRows ! p = rows ! (idx ! p)" using p li by (simp add: srt)
    ultimately show "sub_sorted compare sortKeys columnOptions (rows ! (idx ! p)) (out ! p)"
      by simp
  qed
  with st m lo show ?thesis by blast
qed

text \<open>
  C4, as amended. The sort is stable on every level on which the comparator is a
  consistent comparator, in the sense of ECMAScript (\<open>consistent_on\<close>). When
  \<^verbatim>\<open>getSortedRows\<close> returns \<open>out\<close> for such rows, the rows of \<open>out\<close> are the input
  rows (each with its sub-rows sorted by the same function, so the same holds one level
  down wherever the comparator is consistent for the sub-rows) taken in an order \<open>idx\<close>
  of the input positions, and two rows for which the comparator reports a tie, as it
  does when every key ties, stand in \<open>out\<close> in the order they had in the input. With
  an empty key sequence the result is the input forest itself, at every level, whatever
  the rows are.
\<close>

theorem getSortedRows_stable:
  "(consistent_on (compareFn compare sortKeys columnOptions) rows \<and>
    getSortedRows compare rows sortKeys columnOptions = Inr out \<longrightarrow>
      (\<exists>idx. mset idx = mset [0..<length rows] \<and> length out = length rows \<and>
         (\<forall>p<length rows.
            sub_sorted compare sortKeys columnOptions (rows ! (idx ! p)) (out ! p)) \<and>
         (\<forall>p q. p < length rows \<and> q < length rows \<and> idx ! p < idx ! q \<and>
                compareFn compare sortKeys columnOptions (rows ! (idx ! p)) (rows ! (idx ! q))
                  = Inr 0
                \<longrightarrow> p < q))) \<and>
   getSortedRows compare rows [] columnOptions = Inr rows"
  using getSortedRows_stable0 [of compare sortKeys columnOptions rows out]
    getSortedRows_no_keys [of compare rows columnOptions]
  by blast

theorem getSortedRows_stable_witness:
  "consistent_on (compareFn compare_spec [\<lparr>id' = ''age'', order' = desc\<rparr>] Map.empty) people \<and>
   getSortedRows compare_spec people [\<lparr>id' = ''age'', order' = desc\<rparr>] Map.empty = Inr people \<and>
   compareFn compare_spec [\<lparr>id' = ''age'', order' = desc\<rparr>] Map.empty (people ! 0) (people ! 1)
     = Inr 0 \<and>
   (\<exists>idx. mset idx = mset [0..<length people] \<and> length people = length people \<and>
      (\<forall>p<length people.
         sub_sorted compare_spec [\<lparr>id' = ''age'', order' = desc\<rparr>] Map.empty
           (people ! (idx ! p)) (people ! p)) \<and>
      (\<forall>p q. p < length people \<and> q < length people \<and> idx ! p < idx ! q \<and>
             compareFn compare_spec [\<lparr>id' = ''age'', order' = desc\<rparr>] Map.empty
               (people ! (idx ! p)) (people ! (idx ! q)) = Inr 0
             \<longrightarrow> p < q)) \<and>
   getSortedRows compare_spec people [] Map.empty = Inr people"
proof -
  have c: "consistent_on (compareFn compare_spec [\<lparr>id' = ''age'', order' = desc\<rparr>] Map.empty)
             people"
    by (simp add: consistent_on_def lessCF_def equalCF_def greaterCF_def people_def dataRow_def)
  have h: "getSortedRows compare_spec people [\<lparr>id' = ''age'', order' = desc\<rparr>] Map.empty
             = Inr people"
    by (simp add: getSortedRows.simps binarySearch.simps people_def dataRow_def)
  have t: "compareFn compare_spec [\<lparr>id' = ''age'', order' = desc\<rparr>] Map.empty
             (people ! 0) (people ! 1) = Inr 0"
    by (simp add: people_def dataRow_def)
  from getSortedRows_stable
    [of compare_spec "[\<lparr>id' = ''age'', order' = desc\<rparr>]" Map.empty people people] c h t
  show ?thesis by blast
qed

text \<open>
  Without the condition the claim fails. In \<open>mixedTriple\<close> the column \<open>score\<close> holds
  the array \<open>[9]\<close> in the first and the third row and the number 5 in the second, and
  the ranks are 1, 2 and 1. The comparator compares by a key only when the value of its
  first argument is a string or a number (line 125), so with the keys \<open>score\<close> and
  \<open>rank\<close>, both ascending, the second row sorts before each of the others by \<open>score\<close>
  when it is the first argument (5 is less than \<open>[9]\<close>), and after each of them by
  \<open>rank\<close> when it is the second: the comparator is not consistent. The first and the
  third row tie in each key and in both directions, yet the sort takes the three rows
  for a descending run and reverses them, so the third row comes out before the first.
\<close>

theorem getSortedRows_stable_counterexample:
  "compareFn compare_spec [\<lparr>id' = ''score'', order' = asc\<rparr>] Map.empty
     (mixedTriple ! 0) (mixedTriple ! 2) = Inr 0 \<and>
   compareFn compare_spec [\<lparr>id' = ''rank'', order' = asc\<rparr>] Map.empty
     (mixedTriple ! 0) (mixedTriple ! 2) = Inr 0 \<and>
   compareFn compare_spec scoreRank Map.empty (mixedTriple ! 0) (mixedTriple ! 2) = Inr 0 \<and>
   compareFn compare_spec scoreRank Map.empty (mixedTriple ! 2) (mixedTriple ! 0) = Inr 0 \<and>
   compareFn compare_spec scoreRank Map.empty (mixedTriple ! 1) (mixedTriple ! 0) = Inr (- 1) \<and>
   compareFn compare_spec scoreRank Map.empty (mixedTriple ! 0) (mixedTriple ! 1) = Inr (- 1) \<and>
   \<not> consistent_on (compareFn compare_spec scoreRank Map.empty) mixedTriple \<and>
   getSortedRows compare_spec mixedTriple scoreRank Map.empty
     = Inr [mixedTriple ! 2, mixedTriple ! 1, mixedTriple ! 0] \<and>
   mixedTriple ! 0 \<noteq> mixedTriple ! 2"
proof -
  have 1: "compareFn compare_spec [\<lparr>id' = ''score'', order' = asc\<rparr>] Map.empty
     (mixedTriple ! 0) (mixedTriple ! 2) = Inr 0"
    by (simp add: mixedTriple_def dataRow_def)
  have 2: "compareFn compare_spec [\<lparr>id' = ''rank'', order' = asc\<rparr>] Map.empty
     (mixedTriple ! 0) (mixedTriple ! 2) = Inr 0"
    by (simp add: mixedTriple_def dataRow_def)
  have 3: "compareFn compare_spec scoreRank Map.empty (mixedTriple ! 0) (mixedTriple ! 2) = Inr 0"
    by (simp add: mixedTriple_def scoreRank_def dataRow_def)
  have 4: "compareFn compare_spec scoreRank Map.empty (mixedTriple ! 2) (mixedTriple ! 0) = Inr 0"
    by (simp add: mixedTriple_def scoreRank_def dataRow_def)
  have 5: "compareFn compare_spec scoreRank Map.empty (mixedTriple ! 1) (mixedTriple ! 0)
             = Inr (- 1)"
    by (simp add: mixedTriple_def scoreRank_def dataRow_def compare_eval)
  have 6: "compareFn compare_spec scoreRank Map.empty (mixedTriple ! 0) (mixedTriple ! 1)
             = Inr (- 1)"
    by (simp add: mixedTriple_def scoreRank_def dataRow_def)
  have 7: "\<not> consistent_on (compareFn compare_spec scoreRank Map.empty) mixedTriple"
  proof
    assume C: "consistent_on (compareFn compare_spec scoreRank Map.empty) mixedTriple"
    have m: "mixedTriple ! 0 \<in> set mixedTriple" "mixedTriple ! 1 \<in> set mixedTriple"
      by (simp_all add: mixedTriple_def)
    have "lessCF (compareFn compare_spec scoreRank Map.empty) (mixedTriple ! 0) (mixedTriple ! 1)"
      using 6 by (simp add: lessCF_def)
    then have "greaterCF (compareFn compare_spec scoreRank Map.empty)
                 (mixedTriple ! 1) (mixedTriple ! 0)"
      using CF_less_greater [OF C m] by simp
    with 5 show False by (simp add: greaterCF_def)
  qed
  have 8: "getSortedRows compare_spec mixedTriple scoreRank Map.empty
     = Inr [mixedTriple ! 2, mixedTriple ! 1, mixedTriple ! 0]"
    by (simp add: getSortedRows.simps mixedTriple_def scoreRank_def dataRow_def compare_eval)
  have 9: "mixedTriple ! 0 \<noteq> mixedTriple ! 2"
    by (simp add: mixedTriple_def dataRow_def)
  from 1 2 3 4 5 6 7 8 9 show ?thesis by blast
qed

subsection \<open>Cells that are missing or are not data cells\<close>

lemma compareFn_not_data:
  "cellForId a (id' key) = Some (DisplayBodyCell i) \<Longrightarrow>
   compareFn compare (key # sortKeys) columnOptions a b = Inr 0"
  by (simp add: Let_def)

lemma compareFn_missing_cell:
  "cellForId a (id' key) = None \<Longrightarrow>
   compareFn compare (key # sortKeys) columnOptions a b = Inl TypeError"
  by (simp add: Let_def)

text \<open>
  C1. The spec lets a key whose cell is not a data cell pass to the next key. The
  comparator instead returns 0 at once (line 117): for two rows whose \<open>icon\<close> cell is
  not a data cell and whose ages are 30 and 25, the keys \<open>icon\<close>, \<open>age\<close> give a tie and
  the rows keep their order, although the key \<open>age\<close> alone orders them the other way
  round.
\<close>

theorem compareFn_not_data_stops:
  "compareFn compare_spec [\<lparr>id' = ''icon'', order' = asc\<rparr>, \<lparr>id' = ''age'', order' = asc\<rparr>]
     Map.empty (iconRow 0 30) (iconRow 1 25) = Inr 0 \<and>
   compareFn compare_spec [\<lparr>id' = ''age'', order' = asc\<rparr>]
     Map.empty (iconRow 0 30) (iconRow 1 25) = Inr 5 \<and>
   getSortedRows compare_spec [iconRow 0 30, iconRow 1 25]
     [\<lparr>id' = ''icon'', order' = asc\<rparr>, \<lparr>id' = ''age'', order' = asc\<rparr>] Map.empty
     = Inr [iconRow 0 30, iconRow 1 25] \<and>
   getSortedRows compare_spec [iconRow 0 30, iconRow 1 25]
     [\<lparr>id' = ''age'', order' = asc\<rparr>] Map.empty
     = Inr [iconRow 1 25, iconRow 0 30]"
  by (simp add: getSortedRows.simps iconRow_def)

text \<open>
  C2. The spec makes a key whose column id is not in a row's cell mapping a no-op. The
  comparator reads \<^verbatim>\<open>cellA.id\<close> of the missing cell (line 115) before any test, so the
  call raises a \<^verbatim>\<open>TypeError\<close>: sorting the three rows of \<open>people\<close> by the column
  \<open>city\<close>, which no row has, does not return, whatever \<^verbatim>\<open>compare\<close> is.
\<close>

theorem getSortedRows_missing_cell_raises:
  "getSortedRows compare people [\<lparr>id' = ''city'', order' = asc\<rparr>] Map.empty = Inl TypeError"
  by (simp add: getSortedRows.simps people_def dataRow_def)

subsection \<open>The invert option\<close>

lemma getSortedRows_cong_cmp:
  fixes rows :: "'a BodyRow list"
  assumes "(compareFn compare sortKeys columnOptions :: 'a BodyRow \<Rightarrow> 'a BodyRow \<Rightarrow> error + int)
             = compareFn compare sortKeys' columnOptions'"
  shows "getSortedRows compare rows sortKeys columnOptions =
           getSortedRows compare rows sortKeys' columnOptions'"
    and "sortSubRows compare rows sortKeys columnOptions =
           sortSubRows compare rows sortKeys' columnOptions'"
  using assms
proof (induction compare rows sortKeys columnOptions and compare rows sortKeys columnOptions
    rule: getSortedRows_sortSubRows.induct)
  case (1 compare rows sortKeys columnOptions)
  have A: "Array_sort (compareFn compare sortKeys columnOptions) rows =
           Array_sort (compareFn compare sortKeys' columnOptions') rows"
    using 1(2) by (rule arg_cong)
  show ?case
  proof (cases "Array_sort (compareFn compare sortKeys' columnOptions') rows")
    case (Inl e)
    then show ?thesis
      unfolding getSortedRows.simps [of compare rows sortKeys columnOptions]
        getSortedRows.simps [of compare rows sortKeys' columnOptions'] A
      by simp
  next
    case (Inr sortedRows)
    with A have "Array_sort (compareFn compare sortKeys columnOptions) rows = Inr sortedRows"
      by simp
    from 1(1) [OF this 1(2)] Inr show ?thesis
      unfolding getSortedRows.simps [of compare rows sortKeys columnOptions]
        getSortedRows.simps [of compare rows sortKeys' columnOptions'] A
      by simp
  qed
next
  case (2 compare sortKeys columnOptions)
  show ?case by simp
next
  case (3 compare row rest sortKeys columnOptions)
  show ?case
  proof (cases "subRows row")
    case None
    with 3(1) 3(4) show ?thesis by simp
  next
    case (Some sub)
    have g: "getSortedRows compare sub sortKeys columnOptions =
             getSortedRows compare sub sortKeys' columnOptions'"
      using 3(2) [OF Some] 3(4) by simp
    show ?thesis
    proof (cases "getSortedRows compare sub sortKeys' columnOptions'")
      case (Inl e)
      with g Some show ?thesis by simp
    next
      case (Inr ss)
      with g have g': "getSortedRows compare sub sortKeys columnOptions = Inr ss" by simp
      have r: "sortSubRows compare rest sortKeys columnOptions =
            sortSubRows compare rest sortKeys' columnOptions'"
        using 3(3) [OF Some g'] 3(4) by simp
      have "sortSubRows compare (row # rest) sortKeys columnOptions =
            (case sortSubRows compare rest sortKeys columnOptions of
               Inl e \<Rightarrow> Inl e
             | Inr rest' \<Rightarrow> Inr (getCloned row ss # rest'))"
        by (simp add: Some g')
      also have "\<dots> = (case sortSubRows compare rest sortKeys' columnOptions' of
               Inl e \<Rightarrow> Inl e
             | Inr rest' \<Rightarrow> Inr (getCloned row ss # rest'))"
        using r by (rule arg_cong)
      also have "\<dots> = sortSubRows compare (row # rest) sortKeys' columnOptions'"
        by (simp add: Some Inr)
      finally show ?thesis .
    qed
  qed
qed

lemma compareFn_invert_asc_desc:
  assumes gsv: "\<forall>k. (case columnOptions k of None \<Rightarrow> None | Some option \<Rightarrow> getSortValue option) =
                    (case columnOptions' k of None \<Rightarrow> None | Some option \<Rightarrow> getSortValue option)"
    and inv: "(case columnOptions c of None \<Rightarrow> False
               | Some option \<Rightarrow> (case invert option of None \<Rightarrow> False | Some v \<Rightarrow> v))
              \<noteq> (case columnOptions' c of None \<Rightarrow> False
               | Some option \<Rightarrow> (case invert option of None \<Rightarrow> False | Some v \<Rightarrow> v))"
    and ord: "o1 \<noteq> o2"
  shows "compareFn compare [\<lparr>id' = c, order' = o1\<rparr>] columnOptions =
         compareFn compare [\<lparr>id' = c, order' = o2\<rparr>] columnOptions'"
proof (intro ext)
  fix a b :: "'a BodyRow"
  have f: "(if o1 = desc then - 1 else (1::int)) *
          (if (case columnOptions c of None \<Rightarrow> False
               | Some option \<Rightarrow> (case invert option of None \<Rightarrow> False | Some v \<Rightarrow> v)) then - 1 else 1)
        = (if o2 = desc then - 1 else 1) *
          (if (case columnOptions' c of None \<Rightarrow> False
               | Some option \<Rightarrow> (case invert option of None \<Rightarrow> False | Some v \<Rightarrow> v)) then - 1 else 1)"
    using inv ord by (cases o1; cases o2) auto
  show "compareFn compare [\<lparr>id' = c, order' = o1\<rparr>] columnOptions a b =
        compareFn compare [\<lparr>id' = c, order' = o2\<rparr>] columnOptions' a b"
    unfolding compareFn.simps Let_def SortKey.simps f gsv [rule_format] ..
qed

text \<open>
  C8. Invert equivalence. With column options that differ only in \<^verbatim>\<open>invert\<close> of the
  column \<open>c\<close>, sorting by the single key \<open>{c, Asc}\<close> with \<^verbatim>\<open>invert = true\<close> gives the
  result of sorting by \<open>{c, Desc}\<close> with \<^verbatim>\<open>invert\<close> false or absent, and sorting by
  \<open>{c, Desc}\<close> with \<^verbatim>\<open>invert = true\<close> gives the result of sorting by \<open>{c, Asc}\<close> with
  \<^verbatim>\<open>invert\<close> false or absent: the two comparators are the same function.
\<close>

theorem invert_equivalence:
  fixes rows :: "'a BodyRow list"
  shows
  "getSortedRows compare rows [\<lparr>id' = c, order' = asc\<rparr>]
     (columnOptions(c \<mapsto> option\<lparr>invert := Some True\<rparr>))
   = getSortedRows compare rows [\<lparr>id' = c, order' = desc\<rparr>]
     (columnOptions(c \<mapsto> option\<lparr>invert := Some False\<rparr>)) \<and>
   getSortedRows compare rows [\<lparr>id' = c, order' = asc\<rparr>]
     (columnOptions(c \<mapsto> option\<lparr>invert := Some True\<rparr>))
   = getSortedRows compare rows [\<lparr>id' = c, order' = desc\<rparr>]
     (columnOptions(c \<mapsto> option\<lparr>invert := None\<rparr>)) \<and>
   getSortedRows compare rows [\<lparr>id' = c, order' = desc\<rparr>]
     (columnOptions(c \<mapsto> option\<lparr>invert := Some True\<rparr>))
   = getSortedRows compare rows [\<lparr>id' = c, order' = asc\<rparr>]
     (columnOptions(c \<mapsto> option\<lparr>invert := Some False\<rparr>)) \<and>
   getSortedRows compare rows [\<lparr>id' = c, order' = desc\<rparr>]
     (columnOptions(c \<mapsto> option\<lparr>invert := Some True\<rparr>))
   = getSortedRows compare rows [\<lparr>id' = c, order' = asc\<rparr>]
     (columnOptions(c \<mapsto> option\<lparr>invert := None\<rparr>))"
proof -
  have eq: "(compareFn compare [\<lparr>id' = c, order' = o1\<rparr>]
              (columnOptions(c \<mapsto> option\<lparr>invert := Some True\<rparr>))
              :: 'a BodyRow \<Rightarrow> 'a BodyRow \<Rightarrow> error + int)
            = compareFn compare [\<lparr>id' = c, order' = o2\<rparr>]
              (columnOptions(c \<mapsto> option\<lparr>invert := b\<rparr>))"
    if "o1 \<noteq> o2" and "b = None \<or> b = Some False" for o1 o2 b
    using that by (intro compareFn_invert_asc_desc) auto
  have "getSortedRows compare rows [\<lparr>id' = c, order' = o1\<rparr>]
          (columnOptions(c \<mapsto> option\<lparr>invert := Some True\<rparr>))
        = getSortedRows compare rows [\<lparr>id' = c, order' = o2\<rparr>]
          (columnOptions(c \<mapsto> option\<lparr>invert := b\<rparr>))"
    if "o1 \<noteq> o2" and "b = None \<or> b = Some False" for o1 o2 b
    using eq [OF that] by (rule getSortedRows_cong_cmp(1))
  from this [of asc desc "Some False"] this [of asc desc None]
    this [of desc asc "Some False"] this [of desc asc None]
  show ?thesis by simp
qed

theorem invert_equivalence_witness:
  "getSortedRows compare_spec people [\<lparr>id' = ''age'', order' = asc\<rparr>]
     [''age'' \<mapsto> \<lparr>disable = None, getSortValue = None, invert = Some True\<rparr>] = Inr people \<and>
   getSortedRows compare_spec people [\<lparr>id' = ''age'', order' = desc\<rparr>]
     [''age'' \<mapsto> \<lparr>disable = None, getSortValue = None, invert = Some False\<rparr>] = Inr people \<and>
   getSortedRows compare_spec people [\<lparr>id' = ''age'', order' = asc\<rparr>] Map.empty
     = Inr [people ! 2, people ! 0, people ! 1]"
proof -
  have h: "getSortedRows compare_spec people [\<lparr>id' = ''age'', order' = asc\<rparr>]
     [''age'' \<mapsto> \<lparr>disable = None, getSortValue = None, invert = Some True\<rparr>] = Inr people"
    by (simp add: getSortedRows.simps people_def dataRow_def)
  have p: "getSortedRows compare_spec people [\<lparr>id' = ''age'', order' = asc\<rparr>] Map.empty
     = Inr [people ! 2, people ! 0, people ! 1]"
    by (simp add: getSortedRows.simps binarySearch.simps people_def dataRow_def)
  from invert_equivalence [of compare_spec people "''age''" Map.empty
      "\<lparr>disable = None, getSortValue = None, invert = None\<rparr>"] h p
  show ?thesis by simp
qed

subsection \<open>Sorting again\<close>

lemma in_order_cells:
  assumes "list_all2 (\<lambda>row row'. cellForId row' = cellForId row) xs ys"
    and "in_order (compareFn compare sortKeys columnOptions) xs"
  shows "in_order (compareFn compare sortKeys columnOptions) ys"
  using assms
proof (induction xs ys rule: list_all2_induct)
  case Nil
  show ?case by simp
next
  case (Cons x xs y ys)
  show ?case
  proof (cases xs)
    case Nil
    with Cons show ?thesis by simp
  next
    case xs: (Cons x' xs')
    with Cons.hyps(2) obtain y' ys' where ys: "ys = y' # ys'"
      and c': "cellForId y' = cellForId x'"
      by (auto simp: list_all2_Cons1)
    have "compareFn compare sortKeys columnOptions y' y =
          compareFn compare sortKeys columnOptions x' x"
      using c' Cons.hyps(1) by (rule compareFn_cells)
    with Cons xs ys show ?thesis by simp
  qed
qed

lemma sub_sorted_cells:
  "list_all2 (sub_sorted compare sortKeys columnOptions) xs ys \<Longrightarrow>
   list_all2 (\<lambda>row row'. cellForId row' = cellForId row) xs ys"
  by (erule list_all2_mono) (simp add: sub_sorted_fields)

lemma getSortedRows_again_aux:
  fixes rows :: "'a BodyRow list"
  shows "every_level (consistent_on (compareFn compare sortKeys columnOptions)) rows \<Longrightarrow>
         getSortedRows compare rows sortKeys columnOptions = Inr out \<Longrightarrow>
         getSortedRows compare out sortKeys columnOptions = Inr out"
    and "(\<forall>row\<in>set rows. \<forall>sub. subRows row = Some sub \<longrightarrow>
            every_level (consistent_on (compareFn compare sortKeys columnOptions)) sub) \<Longrightarrow>
         sortSubRows compare rows sortKeys columnOptions = Inr out \<Longrightarrow>
         sortSubRows compare out sortKeys columnOptions = Inr out"
proof (induction compare rows sortKeys columnOptions and compare rows sortKeys columnOptions
    arbitrary: out and out rule: getSortedRows_sortSubRows.induct)
  case (1 compare rows sortKeys columnOptions)
  let ?f = "compareFn compare sortKeys columnOptions :: 'a BodyRow \<Rightarrow> 'a BodyRow \<Rightarrow> error + int"
  from 1(3) obtain sortedRows where
    s: "Array_sort ?f rows = Inr sortedRows"
    and l: "list_all2 (sub_sorted compare sortKeys columnOptions) sortedRows out"
    and ss: "sortSubRows compare sortedRows sortKeys columnOptions = Inr out"
    by (auto simp: getSortedRows_iff sortSubRows_iff)
  have "consistent_on ?f rows" using 1(2) by (rule every_level_top)
  then have "in_order ?f sortedRows" using s by (rule Array_sort_in_order)
  with sub_sorted_cells [OF l] have "in_order ?f out" by (rule in_order_cells)
  then have a: "Array_sort ?f out = Inr out" by (rule in_order_fixed)
  have "\<forall>row\<in>set sortedRows. \<forall>sub. subRows row = Some sub \<longrightarrow>
          every_level (consistent_on ?f) sub"
    using 1(2) Array_sort_set [OF s] by (auto intro: every_level_sub)
  from 1(1) [OF s this ss] a show ?case
    by (simp add: getSortedRows.simps [of compare out])
next
  case (2 compare sortKeys columnOptions)
  then show ?case by simp
next
  case (3 compare row rest sortKeys columnOptions)
  let ?f = "compareFn compare sortKeys columnOptions :: 'a BodyRow \<Rightarrow> 'a BodyRow \<Rightarrow> error + int"
  have lv: "\<forall>r\<in>set rest. \<forall>sub. subRows r = Some sub \<longrightarrow> every_level (consistent_on ?f) sub"
    using 3(4) by simp
  show ?case
  proof (cases "subRows row")
    case None
    with 3(5) obtain rest' where r: "sortSubRows compare rest sortKeys columnOptions = Inr rest'"
      and out: "out = row # rest'"
      by (auto split: sum.splits)
    from 3(1) [OF None lv r] None out show ?thesis by simp
  next
    case (Some sub)
    with 3(5) obtain sortedSubRows rest' where
      g: "getSortedRows compare sub sortKeys columnOptions = Inr sortedSubRows"
      and r: "sortSubRows compare rest sortKeys columnOptions = Inr rest'"
      and out: "out = getCloned row sortedSubRows # rest'"
      by (auto split: sum.splits)
    have "every_level (consistent_on ?f) sub" using 3(4) Some by simp
    from 3(2) [OF Some this g]
    have g': "getSortedRows compare sortedSubRows sortKeys columnOptions = Inr sortedSubRows" .
    from 3(3) [OF Some g lv r]
    have r': "sortSubRows compare rest' sortKeys columnOptions = Inr rest'" .
    have sr: "subRows (getCloned row sortedSubRows) = Some sortedSubRows"
      by (simp add: getCloned_def)
    have "getCloned (getCloned row sortedSubRows) sortedSubRows = getCloned row sortedSubRows"
      using sr by (rule getCloned_same)
    with g' r' sr show ?thesis unfolding out by simp
  qed
qed

text \<open>
  C9, as amended. Sorting the output again with the same keys and column options returns
  the identical forest, provided the first call returns and, on every level of the
  input forest, the comparator is a consistent comparator for the rows of the level, in
  the sense of ECMAScript (\<open>consistent_on\<close>): the comparator answers every pair,
  every row ties with itself, ties are symmetric, and the ties, the answers \<open>before\<close>
  and the answers \<open>after\<close> are each transitive.
\<close>

theorem getSortedRows_again:
  "every_level (consistent_on (compareFn compare sortKeys columnOptions)) rows \<Longrightarrow>
   getSortedRows compare rows sortKeys columnOptions = Inr out \<Longrightarrow>
   getSortedRows compare out sortKeys columnOptions = Inr out"
  by (rule getSortedRows_again_aux(1))

theorem getSortedRows_again_witness:
  "every_level (consistent_on (compareFn compare_spec [\<lparr>id' = ''v'', order' = asc\<rparr>] Map.empty))
     family \<and>
   getSortedRows compare_spec family [\<lparr>id' = ''v'', order' = asc\<rparr>] Map.empty
     = Inr family_sorted \<and>
   getSortedRows compare_spec family_sorted [\<lparr>id' = ''v'', order' = asc\<rparr>] Map.empty
     = Inr family_sorted"
proof -
  have a: "every_level
      (consistent_on (compareFn compare_spec [\<lparr>id' = ''v'', order' = asc\<rparr>] Map.empty)) family"
    by (simp add: every_level.simps consistent_on_def lessCF_def equalCF_def greaterCF_def
        family_def dataRow_def)
  have h: "getSortedRows compare_spec family [\<lparr>id' = ''v'', order' = asc\<rparr>] Map.empty
             = Inr family_sorted"
    by (simp add: getSortedRows.simps family_def family_sorted_def dataRow_def getCloned_def)
  from getSortedRows_again [OF a h] a h show ?thesis by simp
qed

text \<open>
  Without the condition the claim fails. In \<open>mixedPair\<close> the column \<open>score\<close> holds the
  number 1 in the first row and the array \<open>[2]\<close> in the second, and the ranks are 2 and
  1. The comparator compares by a key only when the value of its first argument is a
  string or a number (line 125): with the keys \<open>score\<close> and \<open>rank\<close>, both ascending,
  it puts the first row before the second by \<open>score\<close> (1 is less than \<open>[2]\<close>), and
  the second before the first by \<open>rank\<close>, the array being passed over. Each answer is
  \<open>-1\<close>, so whichever row stands first, the sort finds a descending run and reverses
  it: the second call undoes the first.
\<close>

theorem getSortedRows_again_counterexample:
  "compareFn compare_spec scoreRank Map.empty (mixedPair ! 0) (mixedPair ! 1) = Inr (- 1) \<and>
   compareFn compare_spec scoreRank Map.empty (mixedPair ! 1) (mixedPair ! 0) = Inr (- 1) \<and>
   getSortedRows compare_spec mixedPair scoreRank Map.empty
     = Inr [mixedPair ! 1, mixedPair ! 0] \<and>
   getSortedRows compare_spec [mixedPair ! 1, mixedPair ! 0] scoreRank Map.empty
     = Inr [mixedPair ! 0, mixedPair ! 1] \<and>
   [mixedPair ! 0, mixedPair ! 1] \<noteq> [mixedPair ! 1, mixedPair ! 0]"
  by (simp add: getSortedRows.simps mixedPair_def scoreRank_def dataRow_def compare_eval)

section \<open>The sorter on a store\<close>

lemma unchanged_but_refl: "unchanged_but A s s"
  by (simp add: unchanged_but_def)

lemma unchanged_but_trans:
  "unchanged_but A s s' \<Longrightarrow> unchanged_but A s' s'' \<Longrightarrow> unchanged_but A s s''"
  by (simp add: unchanged_but_def)

lemma unchanged_but_weaken: "unchanged_but {} s s' \<Longrightarrow> unchanged_but A s s'"
  by (simp add: unchanged_but_def)

lemma unchanged_but_fresh:
  "unchanged_but {} s s' \<Longrightarrow> unchanged_but {n} s' s'' \<Longrightarrow> length (row_arrays s) \<le> n \<Longrightarrow>
   unchanged_but {} s s''"
  by (simp add: unchanged_but_def)

lemma unchanged_but_alloc_array:
  "unchanged_but {} s (s\<lparr>row_arrays := row_arrays s @ [xs]\<rparr>)"
  by (simp add: unchanged_but_def nth_append)

lemma unchanged_but_write_array:
  "unchanged_but {n} s (s\<lparr>row_arrays := (row_arrays s)[n := xs]\<rparr>)"
  by (simp add: unchanged_but_def)

lemma unchanged_but_clone:
  "unchanged_but {n} s
     (s\<lparr>row_objects := row_objects s @ [obj], row_arrays := (row_arrays s)[n := xs]\<rparr>)"
  by (simp add: unchanged_but_def nth_append)

lemma frame_aux:
  "(\<forall>(s :: 'a store) rows.
      unchanged_but {} s (fst (getSortedRows_s fuel compare s rows sortKeys columnOptions))) \<and>
   (\<forall>(s :: 'a store) n i.
      unchanged_but {n} s (fst (loop_s fuel compare s n i sortKeys columnOptions)))"
proof (induction fuel)
  case 0
  show ?case by (simp add: unchanged_but_refl)
next
  case (Suc fuel)
  from Suc have P: "\<And>(s :: 'a store) rows.
      unchanged_but {} s (fst (getSortedRows_s fuel compare s rows sortKeys columnOptions))"
    and Q: "\<And>(s :: 'a store) n i.
      unchanged_but {n} s (fst (loop_s fuel compare s n i sortKeys columnOptions))"
    by simp_all
  have 1: "unchanged_but {} s
      (fst (getSortedRows_s (Suc fuel) compare s rows sortKeys columnOptions))"
    for s :: "'a store" and rows
  proof -
    let ?n = "length (row_arrays s)"
    let ?s1 = "s\<lparr>row_arrays := row_arrays s @ [row_arrays s ! rows]\<rparr>"
    have a: "unchanged_but {} s ?s1" by (rule unchanged_but_alloc_array)
    have b: "unchanged_but {} s
        (fst (loop_s fuel compare (?s1\<lparr>row_arrays := (row_arrays ?s1)[?n := xs]\<rparr>) ?n 0
               sortKeys columnOptions))" for xs
    proof -
      have "unchanged_but {?n} ?s1 (?s1\<lparr>row_arrays := (row_arrays ?s1)[?n := xs]\<rparr>)"
        by (rule unchanged_but_write_array)
      from this Q have "unchanged_but {?n} ?s1
        (fst (loop_s fuel compare (?s1\<lparr>row_arrays := (row_arrays ?s1)[?n := xs]\<rparr>) ?n 0
               sortKeys columnOptions))"
        by (rule unchanged_but_trans)
      with a show ?thesis by (rule unchanged_but_fresh) simp
    qed
    show ?thesis
      using a b by (simp add: Let_def unchanged_but_refl split: sum.splits)
  qed
  have 2: "unchanged_but {n} s (fst (loop_s (Suc fuel) compare s n i sortKeys columnOptions))"
    for s :: "'a store" and n i
  proof -
    have c: "unchanged_but {n} s
        (fst (loop_s fuel compare
               (s'\<lparr>row_objects := row_objects s' @ [obj],
                   row_arrays := (row_arrays s')[n := xs]\<rparr>) n j sortKeys columnOptions))"
      if "unchanged_but {n} s s'" for s' obj xs j
    proof -
      have "unchanged_but {n} s'
          (s'\<lparr>row_objects := row_objects s' @ [obj], row_arrays := (row_arrays s')[n := xs]\<rparr>)"
        by (rule unchanged_but_clone)
      with that have "unchanged_but {n} s
          (s'\<lparr>row_objects := row_objects s' @ [obj], row_arrays := (row_arrays s')[n := xs]\<rparr>)"
        by (rule unchanged_but_trans)
      from this Q show ?thesis by (rule unchanged_but_trans)
    qed
    have d: "unchanged_but {n} s (fst (getSortedRows_s fuel compare s r sortKeys columnOptions))"
      for r
      using P by (rule unchanged_but_weaken)
    show ?thesis
    proof (cases "n < length (row_arrays s) \<and> i < length (row_arrays s ! n) \<and>
        row_arrays s ! n ! i < length (row_objects s)")
      case False
      then show ?thesis by (auto simp: Let_def unchanged_but_refl)
    next
      case True
      show ?thesis
      proof (cases "r_subRows (row_objects s ! (row_arrays s ! n ! i))")
        case None
        with True Q show ?thesis by (simp add: Let_def)
      next
        case (Some subRowsRef)
        obtain s' res where g: "getSortedRows_s fuel compare s subRowsRef sortKeys columnOptions
            = (s', res)"
          by (cases "getSortedRows_s fuel compare s subRowsRef sortKeys columnOptions")
        have u: "unchanged_but {n} s s'" using d [of subRowsRef] g by simp
        show ?thesis
        proof (cases res)
          case (Returns sortedSubRows)
          with True Some g u c [OF u] show ?thesis by (simp add: Let_def)
        qed (use True Some g u in \<open>simp_all add: Let_def\<close>)
      qed
    qed
  qed
  from 1 2 show ?case by blast
qed

subsection \<open>The store and the forest\<close>

lemma represents_list_all2:
  "represents lo hi s refs rows \<longleftrightarrow> list_all2 (represents_row lo hi s) refs rows"
proof (induction refs arbitrary: rows)
  case Nil
  show ?case by (cases rows) simp_all
next
  case (Cons r refs)
  show ?case by (cases rows) (simp_all add: Cons)
qed

lemma represents_preserved:
  "represents lo hi s refs rows \<Longrightarrow> unchanged_but A s s' \<Longrightarrow> (\<forall>a\<in>A. a < lo \<or> hi \<le> a) \<Longrightarrow>
   lo' \<le> lo \<Longrightarrow> hi \<le> hi' \<Longrightarrow> represents lo' hi' s' refs rows"
  "represents_row lo hi s r row \<Longrightarrow> unchanged_but A s s' \<Longrightarrow> (\<forall>a\<in>A. a < lo \<or> hi \<le> a) \<Longrightarrow>
   lo' \<le> lo \<Longrightarrow> hi \<le> hi' \<Longrightarrow> represents_row lo' hi' s' r row"
proof (induction lo hi s refs rows and lo hi s r row rule: represents_represents_row.induct)
  case (5 lo hi s r x cells sub)
  from 5(2) have r: "r < length (row_objects s)" by simp
  with 5(3) have o: "row_objects s' ! r = row_objects s ! r" and r': "r < length (row_objects s')"
    by (auto simp: unchanged_but_def)
  show ?case
  proof (cases sub)
    case None
    with 5(2) o r' show ?thesis by simp
  next
    case (Some rows)
    with 5(2) obtain a where a: "r_subRows (row_objects s ! r) = Some a"
      "lo \<le> a" "a < hi" "a < length (row_arrays s)"
      and rep: "represents lo hi s (row_arrays s ! a) rows"
      by (auto split: option.splits)
    from a 5(4) have "a \<notin> A" by auto
    with a(4) 5(3) have arr: "row_arrays s' ! a = row_arrays s ! a"
      and a': "a < length (row_arrays s')"
      by (auto simp: unchanged_but_def)
    from 5(1) [OF Some a(1) rep 5(3) 5(4) 5(5) 5(6)]
    have "represents lo' hi' s' (row_arrays s ! a) rows" .
    with a arr a' o r' 5(2) 5(5) 5(6) Some show ?thesis by simp
  qed
qed simp_all

lemma represents_row_cells:
  "represents_row lo hi s r row \<Longrightarrow> cellForId (row_view (row_objects s ! r)) = cellForId row"
  by (cases row) (simp add: row_view_def)

lemma represents_row_compareFn:
  "represents_row lo hi s ra a \<Longrightarrow> represents_row lo hi s rb b \<Longrightarrow>
   compareFn compare sortKeys columnOptions (row_view (row_objects s ! ra)) (row_view (row_objects s ! rb))
   = compareFn compare sortKeys columnOptions a b"
  by (intro compareFn_cells represents_row_cells)

lemma fuel_mono_aux:
  "(\<forall>(s :: 'a store) rows.
      snd (getSortedRows_s fuel compare s rows sortKeys columnOptions) \<noteq> OutOfFuel \<longrightarrow>
      getSortedRows_s (fuel + d) compare s rows sortKeys columnOptions
        = getSortedRows_s fuel compare s rows sortKeys columnOptions) \<and>
   (\<forall>(s :: 'a store) n i.
      snd (loop_s fuel compare s n i sortKeys columnOptions) \<noteq> OutOfFuel \<longrightarrow>
      loop_s (fuel + d) compare s n i sortKeys columnOptions
        = loop_s fuel compare s n i sortKeys columnOptions)"
proof (induction fuel)
  case 0
  show ?case by simp
next
  case (Suc fuel)
  from Suc have P: "\<And>(s :: 'a store) rows.
      snd (getSortedRows_s fuel compare s rows sortKeys columnOptions) \<noteq> OutOfFuel \<Longrightarrow>
      getSortedRows_s (fuel + d) compare s rows sortKeys columnOptions
        = getSortedRows_s fuel compare s rows sortKeys columnOptions"
    and Q: "\<And>(s :: 'a store) n i.
      snd (loop_s fuel compare s n i sortKeys columnOptions) \<noteq> OutOfFuel \<Longrightarrow>
      loop_s (fuel + d) compare s n i sortKeys columnOptions
        = loop_s fuel compare s n i sortKeys columnOptions"
    by simp_all
  have 1: "getSortedRows_s (Suc fuel + d) compare s rows sortKeys columnOptions
        = getSortedRows_s (Suc fuel) compare s rows sortKeys columnOptions"
    if "snd (getSortedRows_s (Suc fuel) compare s rows sortKeys columnOptions) \<noteq> OutOfFuel"
    for s :: "'a store" and rows
    using that Q by (auto simp: Let_def split: sum.splits if_splits)
  have 2: "loop_s (Suc fuel + d) compare s n i sortKeys columnOptions
        = loop_s (Suc fuel) compare s n i sortKeys columnOptions"
    if nf: "snd (loop_s (Suc fuel) compare s n i sortKeys columnOptions) \<noteq> OutOfFuel"
    for s :: "'a store" and n i
  proof (cases "n < length (row_arrays s) \<and> i < length (row_arrays s ! n) \<and>
        row_arrays s ! n ! i < length (row_objects s)")
    case False
    then show ?thesis by (auto simp: Let_def)
  next
    case True
    show ?thesis
    proof (cases "r_subRows (row_objects s ! (row_arrays s ! n ! i))")
      case None
      with True nf Q show ?thesis by (simp add: Let_def)
    next
      case (Some subRowsRef)
      obtain s' res where g: "getSortedRows_s fuel compare s subRowsRef sortKeys columnOptions
          = (s', res)"
        by (cases "getSortedRows_s fuel compare s subRowsRef sortKeys columnOptions")
      have "res \<noteq> OutOfFuel"
        using nf True Some g by (auto simp: Let_def)
      with P [of s subRowsRef] g
      have g': "getSortedRows_s (fuel + d) compare s subRowsRef sortKeys columnOptions = (s', res)"
        by simp
      show ?thesis
      proof (cases res)
        case (Returns sortedSubRows)
        with True Some g g' nf Q show ?thesis
          by (auto simp: Let_def split: if_splits)
      qed (use True Some g g' in \<open>simp_all add: Let_def\<close>)
    qed
  qed
  from 1 2 show ?case by blast
qed

lemma fuel_mono:
  fixes s :: "'a store"
  assumes "fuel \<le> fuel'"
  shows "snd (getSortedRows_s fuel compare s rows sortKeys columnOptions) \<noteq> OutOfFuel \<Longrightarrow>
         getSortedRows_s fuel' compare s rows sortKeys columnOptions
           = getSortedRows_s fuel compare s rows sortKeys columnOptions"
    and "snd (loop_s fuel compare s n i sortKeys columnOptions) \<noteq> OutOfFuel \<Longrightarrow>
         loop_s fuel' compare s n i sortKeys columnOptions
           = loop_s fuel compare s n i sortKeys columnOptions"
proof -
  have e: "fuel + (fuel' - fuel) = fuel'" using assms by simp
  note aux = fuel_mono_aux [where 'a = 'a, of fuel compare sortKeys columnOptions "fuel' - fuel"]
  show "getSortedRows_s fuel' compare s rows sortKeys columnOptions
           = getSortedRows_s fuel compare s rows sortKeys columnOptions"
    if "snd (getSortedRows_s fuel compare s rows sortKeys columnOptions) \<noteq> OutOfFuel"
  proof -
    from aux that
    have "getSortedRows_s (fuel + (fuel' - fuel)) compare s rows sortKeys columnOptions
           = getSortedRows_s fuel compare s rows sortKeys columnOptions"
      by blast
    then show ?thesis unfolding e .
  qed
  show "loop_s fuel' compare s n i sortKeys columnOptions
           = loop_s fuel compare s n i sortKeys columnOptions"
    if "snd (loop_s fuel compare s n i sortKeys columnOptions) \<noteq> OutOfFuel"
  proof -
    from aux that
    have "loop_s (fuel + (fuel' - fuel)) compare s n i sortKeys columnOptions
           = loop_s fuel compare s n i sortKeys columnOptions"
      by blast
    then show ?thesis unfolding e .
  qed
qed

lemma sort_ok_fuel: "sort_ok s res pure \<Longrightarrow> snd res \<noteq> OutOfFuel"
  by (auto simp: sort_ok_def split: prod.splits outcome.splits)

lemma loop_ok_fuel: "loop_ok s n i res pure \<Longrightarrow> snd res \<noteq> OutOfFuel"
  by (auto simp: loop_ok_def split: prod.splits outcome.splits)

lemma drop_eq_ConsD:
  assumes "drop i xs = y # ys"
  shows "i < length xs \<and> xs ! i = y \<and> drop (Suc i) xs = ys"
proof -
  have i: "i < length xs" using assms by (cases "i < length xs") auto
  then have "drop i xs = xs ! i # drop (Suc i) xs" by (simp add: Cons_nth_drop_Suc)
  with assms i show ?thesis by simp
qed

lemma represents_row_bound: "represents_row lo hi s r row \<Longrightarrow> r < length (row_objects s)"
  by (cases row) simp

lemma represents_row_leaf:
  assumes "subRows row = None" and "represents_row lo hi s r row" and "unchanged_but A s s'"
  shows "represents_row lo' hi' s' r row"
  using assms by (cases row) (auto simp: unchanged_but_def)

lemma frame_sort:
  fixes s :: "'a store"
  shows "getSortedRows_s fuel compare s rows sortKeys columnOptions = (s', res) \<Longrightarrow>
         unchanged_but {} s s'"
  using frame_aux [where 'a = 'a, of fuel compare sortKeys columnOptions]
  by (metis fst_conv)

lemma frame_loop:
  fixes s :: "'a store"
  shows "loop_s fuel compare s n i sortKeys columnOptions = (s', res) \<Longrightarrow>
         unchanged_but {n} s s'"
  using frame_aux [where 'a = 'a, of fuel compare sortKeys columnOptions]
  by (metis fst_conv)

lemma loop_refines_nil:
  fixes s :: "'a store"
  assumes "n < length (row_arrays s)"
    and "represents 0 B s (drop i (row_arrays s ! n)) ([] :: 'a BodyRow list)"
  shows "loop_ok s n i (loop_s (Suc 0) compare s n i k columnOptions)
           (sortSubRows compare ([] :: 'a BodyRow list) sortKeys columnOptions)"
proof -
  from assms(2) have "drop i (row_arrays s ! n) = []"
    by (cases "drop i (row_arrays s ! n)") simp_all
  then have "\<not> i < length (row_arrays s ! n)" by simp
  with assms(1) \<open>drop i (row_arrays s ! n) = []\<close> show ?thesis
    by (simp add: loop_ok_def)
qed

lemma loop_refines_leaf:
  fixes s :: "'a store"
  assumes n: "n < length (row_arrays s)"
    and rep: "represents 0 B s (drop i (row_arrays s ! n)) (row # rest)"
    and leaf: "subRows row = None"
    and ok: "loop_ok s n (Suc i) (loop_s fuel compare s n (Suc i) k columnOptions)
               (sortSubRows compare rest sortKeys columnOptions)"
  shows "loop_ok s n i (loop_s (Suc fuel) compare s n i k columnOptions)
           (sortSubRows compare (row # rest) sortKeys columnOptions)"
proof -
  obtain r refs where d: "drop i (row_arrays s ! n) = r # refs"
    using rep by (cases "drop i (row_arrays s ! n)") simp_all
  from drop_eq_ConsD [OF d] have i: "i < length (row_arrays s ! n)"
    and r: "row_arrays s ! n ! i = r" by simp_all
  from rep d have rr: "represents_row 0 B s r row" by simp
  then have rb: "r < length (row_objects s)" by (rule represents_row_bound)
  from rr leaf have sub: "r_subRows (row_objects s ! r) = None" by (cases row) simp
  have step: "loop_s (Suc fuel) compare s n i k columnOptions
      = loop_s fuel compare s n (Suc i) k columnOptions"
    using n i r rb sub by (simp add: Let_def)
  obtain s' res where l: "loop_s fuel compare s n (Suc i) k columnOptions = (s', res)"
    by (cases "loop_s fuel compare s n (Suc i) k columnOptions")
  have u: "unchanged_but {n} s s'" using l by (rule frame_loop)
  show ?thesis
  proof (cases res)
    case (Returns a')
    with ok l obtain rest' where a': "a' = n"
      and t: "take (Suc i) (row_arrays s' ! n) = take (Suc i) (row_arrays s ! n)"
      and p: "sortSubRows compare rest sortKeys columnOptions = Inr rest'"
      and rp: "represents (Suc n) (length (row_arrays s')) s' (drop (Suc i) (row_arrays s' ! n)) rest'"
      by (auto simp: loop_ok_def split: sum.splits)
    from t i have i': "i < length (row_arrays s' ! n)"
      by (metis length_take min_less_iff_conj lessI not_less_eq)
    from t i i' have ri: "row_arrays s' ! n ! i = r"
      using r by (metis lessI nth_take)
    have t': "take i (row_arrays s' ! n) = take i (row_arrays s ! n)"
      using t by (metis take_take min.absorb1 le_add2 plus_1_eq_Suc)
    have "represents_row (Suc n) (length (row_arrays s')) s' r row"
      using leaf rr u by (rule represents_row_leaf)
    with rp have "represents (Suc n) (length (row_arrays s')) s' (r # drop (Suc i) (row_arrays s' ! n))
        (row # rest')" by simp
    moreover have "drop i (row_arrays s' ! n) = r # drop (Suc i) (row_arrays s' ! n)"
      using i' ri by (simp add: Cons_nth_drop_Suc [symmetric])
    ultimately show ?thesis
      using Returns a' t' p leaf l step by (simp add: loop_ok_def)
  next
    case (Throws e)
    with ok l leaf step show ?thesis by (simp add: loop_ok_def)
  next
    case Dangling
    with ok l show ?thesis by (simp add: loop_ok_def)
  next
    case OutOfFuel
    with ok l show ?thesis by (simp add: loop_ok_def)
  qed
qed

lemma loop_refines_sub:
  fixes s :: "'a store"
  assumes n: "n < length (row_arrays s)" and B: "B \<le> n"
    and rep: "represents 0 B s (drop i (row_arrays s ! n)) (row # rest)"
    and sub: "subRows row = Some subrows"
    and IH1: "\<And>a. a < length (row_arrays s) \<Longrightarrow> represents 0 B s (row_arrays s ! a) subrows \<Longrightarrow>
        \<exists>fuel. sort_ok s (getSortedRows_s fuel compare s a k columnOptions)
                 (getSortedRows compare subrows sortKeys columnOptions)"
    and IH2: "\<And>ss (s2 :: 'a store).
        getSortedRows compare subrows sortKeys columnOptions = Inr ss \<Longrightarrow>
        n < length (row_arrays s2) \<Longrightarrow>
        represents 0 B s2 (drop (Suc i) (row_arrays s2 ! n)) rest \<Longrightarrow>
        key_arrays s2 = key_arrays s \<Longrightarrow>
        \<exists>fuel. loop_ok s2 n (Suc i) (loop_s fuel compare s2 n (Suc i) k columnOptions)
                 (sortSubRows compare rest sortKeys columnOptions)"
  shows "\<exists>fuel. loop_ok s n i (loop_s fuel compare s n i k columnOptions)
           (sortSubRows compare (row # rest) sortKeys columnOptions)"
proof -
  obtain r refs where d: "drop i (row_arrays s ! n) = r # refs"
    using rep by (cases "drop i (row_arrays s ! n)") simp_all
  from drop_eq_ConsD [OF d] have i: "i < length (row_arrays s ! n)"
    and r: "row_arrays s ! n ! i = r" and dr: "drop (Suc i) (row_arrays s ! n) = refs"
    by simp_all
  from rep d have rr: "represents_row 0 B s r row"
    and rrest: "represents 0 B s refs rest" by simp_all
  from rr have rb: "r < length (row_objects s)" by (rule represents_row_bound)
  from rr sub obtain asub where asub: "r_subRows (row_objects s ! r) = Some asub"
    and ab: "asub < length (row_arrays s)"
    and rsub: "represents 0 B s (row_arrays s ! asub) subrows"
    and ro: "r_others (row_objects s ! r) = others row"
    and rc: "r_cellForId (row_objects s ! r) = cellForId row"
    by (cases row) (auto split: option.splits)
  from IH1 [OF ab rsub] obtain f1 where
    ok1: "sort_ok s (getSortedRows_s f1 compare s asub k columnOptions)
            (getSortedRows compare subrows sortKeys columnOptions)" ..
  obtain s1 res1 where g1: "getSortedRows_s f1 compare s asub k columnOptions = (s1, res1)"
    by (cases "getSortedRows_s f1 compare s asub k columnOptions")
  have u1: "unchanged_but {} s s1" using g1 by (rule frame_sort)
  show ?thesis
  proof (cases res1)
    case (Throws e)
    with ok1 g1 have "getSortedRows compare subrows sortKeys columnOptions = Inl e"
      by (simp add: sort_ok_def)
    moreover have "loop_s (Suc f1) compare s n i k columnOptions = (s1, Throws e)"
      using n i r rb asub g1 Throws by (simp add: Let_def)
    ultimately have "loop_ok s n i (loop_s (Suc f1) compare s n i k columnOptions)
           (sortSubRows compare (row # rest) sortKeys columnOptions)"
      using sub by (simp add: loop_ok_def)
    then show ?thesis ..
  next
    case Dangling
    with ok1 g1 show ?thesis by (simp add: sort_ok_def)
  next
    case OutOfFuel
    with ok1 g1 show ?thesis by (simp add: sort_ok_def)
  next
    case (Returns a1)
    with ok1 g1 obtain ss where a1: "a1 = length (row_arrays s)"
      and a1b: "a1 < length (row_arrays s1)"
      and p1: "getSortedRows compare subrows sortKeys columnOptions = Inr ss"
      and rep1: "represents (Suc a1) (length (row_arrays s1)) s1 (row_arrays s1 ! a1) ss"
      by (auto simp: sort_ok_def split: sum.splits)
    from u1 n have n1: "n < length (row_arrays s1)" and arr1: "row_arrays s1 ! n = row_arrays s ! n"
      by (auto simp: unchanged_but_def)
    from u1 rb have rb1: "r < length (row_objects s1)"
      and obj1: "row_objects s1 ! r = row_objects s ! r"
      by (auto simp: unchanged_but_def)
    define c where "c = length (row_objects s1)"
    define s2 where "s2 = s1\<lparr>row_objects :=
          row_objects s1 @ [(row_objects s1 ! r)\<lparr>r_subRows := Some a1\<rparr>],
        row_arrays := (row_arrays s1)[n := (row_arrays s1 ! n)[i := c]]\<rparr>"
    have u2: "unchanged_but {n} s1 s2" unfolding s2_def by (rule unchanged_but_clone)
    have u02: "unchanged_but {n} s s2"
      using unchanged_but_weaken [OF u1] u2 by (rule unchanged_but_trans)
    have n2: "n < length (row_arrays s2)" using n1 by (simp add: s2_def)
    have arr2: "row_arrays s2 ! n = (row_arrays s ! n)[i := c]"
      using n1 arr1 by (simp add: s2_def)
    have "represents 0 B s2 refs rest"
      using rrest u02 by (rule represents_preserved(1)) (use B in auto)
    moreover have "drop (Suc i) (row_arrays s2 ! n) = refs"
      using dr by (simp add: arr2)
    ultimately have rep2: "represents 0 B s2 (drop (Suc i) (row_arrays s2 ! n)) rest" by simp
    have k2: "key_arrays s2 = key_arrays s" using u02 by (simp add: unchanged_but_def)
    from IH2 [OF p1 n2 rep2 k2] obtain f2 where
      ok2: "loop_ok s2 n (Suc i) (loop_s f2 compare s2 n (Suc i) k columnOptions)
              (sortSubRows compare rest sortKeys columnOptions)" ..
    obtain s3 res3 where l3: "loop_s f2 compare s2 n (Suc i) k columnOptions = (s3, res3)"
      by (cases "loop_s f2 compare s2 n (Suc i) k columnOptions")
    have u3: "unchanged_but {n} s2 s3" using l3 by (rule frame_loop)
    define fuel where "fuel = max f1 f2"
    have "getSortedRows_s fuel compare s asub k columnOptions
        = getSortedRows_s f1 compare s asub k columnOptions"
      using sort_ok_fuel [OF ok1] by (intro fuel_mono(1)) (simp_all add: fuel_def)
    with g1 Returns have g1': "getSortedRows_s fuel compare s asub k columnOptions
        = (s1, Returns a1)" by simp
    have "loop_s fuel compare s2 n (Suc i) k columnOptions
        = loop_s f2 compare s2 n (Suc i) k columnOptions"
      using loop_ok_fuel [OF ok2] by (intro fuel_mono(2)) (simp_all add: fuel_def)
    with l3 have l3': "loop_s fuel compare s2 n (Suc i) k columnOptions = (s3, res3)" by simp
    have step: "loop_s (Suc fuel) compare s n i k columnOptions = (s3, res3)"
      using n i r rb asub g1' n1 arr1 rb1 l3' by (simp add: Let_def s2_def c_def)
    show ?thesis
    proof (cases res3)
      case (Throws e)
      with ok2 l3 have "sortSubRows compare rest sortKeys columnOptions = Inl e"
        by (simp add: loop_ok_def)
      with step Throws sub p1
      have "loop_ok s n i (loop_s (Suc fuel) compare s n i k columnOptions)
           (sortSubRows compare (row # rest) sortKeys columnOptions)"
        by (simp add: loop_ok_def)
      then show ?thesis ..
    next
      case Dangling
      with ok2 l3 show ?thesis by (simp add: loop_ok_def)
    next
      case OutOfFuel
      with ok2 l3 show ?thesis by (simp add: loop_ok_def)
    next
      case (Returns a3)
      with ok2 l3 obtain rest' where a3: "a3 = n"
        and t: "take (Suc i) (row_arrays s3 ! n) = take (Suc i) (row_arrays s2 ! n)"
        and p3: "sortSubRows compare rest sortKeys columnOptions = Inr rest'"
        and rp: "represents (Suc n) (length (row_arrays s3)) s3
                   (drop (Suc i) (row_arrays s3 ! n)) rest'"
        by (auto simp: loop_ok_def split: sum.splits)
      have i2: "i < length (row_arrays s2 ! n)" using i by (simp add: arr2)
      from t i2 have i3: "i < length (row_arrays s3 ! n)"
        by (metis length_take min_less_iff_conj lessI not_less_eq)
      have "row_arrays s3 ! n ! i = row_arrays s2 ! n ! i"
        using t by (metis lessI nth_take)
      then have ci: "row_arrays s3 ! n ! i = c" using i by (simp add: arr2)
      have "take i (row_arrays s3 ! n) = take i (row_arrays s2 ! n)"
        using t by (metis take_take min.absorb1 le_add2 plus_1_eq_Suc)
      then have t': "take i (row_arrays s3 ! n) = take i (row_arrays s ! n)"
        by (simp add: arr2)
      have u13: "unchanged_but {n} s1 s3" using u2 u3 by (rule unchanged_but_trans)
      have c2: "c < length (row_objects s2)" by (simp add: s2_def c_def)
      with u3 have c3: "c < length (row_objects s3)"
        and objc: "row_objects s3 ! c = row_objects s2 ! c"
        by (auto simp: unchanged_but_def)
      have objc2: "row_objects s2 ! c = (row_objects s ! r)\<lparr>r_subRows := Some a1\<rparr>"
        by (simp add: s2_def c_def obj1)
      have na1: "n < a1" using n a1 by simp
      have a13: "a1 < length (row_arrays s3)" and arr13: "row_arrays s3 ! a1 = row_arrays s1 ! a1"
        using u13 a1b na1 by (auto simp: unchanged_but_def)
      have "represents (Suc n) (length (row_arrays s3)) s3 (row_arrays s1 ! a1) ss"
        using rep1 u13
      proof (rule represents_preserved(1))
        show "\<forall>a\<in>{n}. a < Suc a1 \<or> length (row_arrays s1) \<le> a" using na1 by simp
        show "Suc n \<le> Suc a1" using na1 by simp
        show "length (row_arrays s1) \<le> length (row_arrays s3)"
          using u13 by (simp add: unchanged_but_def)
      qed
      then have "represents_row (Suc n) (length (row_arrays s3)) s3 c (getCloned row ss)"
        using c3 objc objc2 ro rc na1 a13 arr13 by (simp add: getCloned_def)
      with rp have "represents (Suc n) (length (row_arrays s3)) s3
          (c # drop (Suc i) (row_arrays s3 ! n)) (getCloned row ss # rest')" by simp
      moreover have "drop i (row_arrays s3 ! n) = c # drop (Suc i) (row_arrays s3 ! n)"
        using i3 ci by (simp add: Cons_nth_drop_Suc [symmetric])
      ultimately have "loop_ok s n i (loop_s (Suc fuel) compare s n i k columnOptions)
           (sortSubRows compare (row # rest) sortKeys columnOptions)"
        using step Returns a3 t' p3 p1 sub by (simp add: loop_ok_def)
      then show ?thesis ..
    qed
  qed
qed

lemma sort_refines:
  fixes s :: "'a store"
  assumes a: "a < length (row_arrays s)" and B: "B \<le> length (row_arrays s)"
    and rep: "represents 0 B s (row_arrays s ! a) rows"
    and k: "k < length (key_arrays s)" and keys: "key_arrays s ! k = sortKeys"
    and IH: "\<And>sortedRows (s2 :: 'a store).
        Array_sort (compareFn compare sortKeys columnOptions) rows = Inr sortedRows \<Longrightarrow>
        length (row_arrays s) < length (row_arrays s2) \<Longrightarrow>
        represents 0 B s2 (drop 0 (row_arrays s2 ! length (row_arrays s))) sortedRows \<Longrightarrow>
        key_arrays s2 = key_arrays s \<Longrightarrow>
        \<exists>fuel. loop_ok s2 (length (row_arrays s)) 0
                 (loop_s fuel compare s2 (length (row_arrays s)) 0 k columnOptions)
                 (sortSubRows compare sortedRows sortKeys columnOptions)"
  shows "\<exists>fuel. sort_ok s (getSortedRows_s fuel compare s a k columnOptions)
           (getSortedRows compare rows sortKeys columnOptions)"
proof -
  let ?n = "length (row_arrays s)"
  let ?refs = "row_arrays s ! a"
  let ?s1 = "s\<lparr>row_arrays := row_arrays s @ [?refs]\<rparr>"
  let ?f = "\<lambda>x y. compareFn compare sortKeys columnOptions
              (row_view (row_objects s ! x)) (row_view (row_objects s ! y))"
  let ?g = "compareFn compare sortKeys columnOptions :: 'a BodyRow \<Rightarrow> 'a BodyRow \<Rightarrow> error + int"
  have l: "list_all2 (represents_row 0 B s) ?refs rows"
    using rep by (simp add: represents_list_all2)
  have bound: "\<forall>r\<in>set ?refs. r < length (row_objects s)"
  proof
    fix r assume "r \<in> set ?refs"
    with l obtain row where "represents_row 0 B s r row"
      by (auto simp: in_set_conv_nth list_all2_conv_all_nth)
    then show "r < length (row_objects s)" by (rule represents_row_bound)
  qed
  have rel: "case Array_sort ?g rows of
               Inl e \<Rightarrow> Array_sort ?f ?refs = Inl e
             | Inr ys' \<Rightarrow> (\<exists>xs'. Array_sort ?f ?refs = Inr xs' \<and>
                                list_all2 (represents_row 0 B s) xs' ys')"
    using l by (rule Array_sort_rel) (rule represents_row_compareFn)
  have s1: "row_arrays ?s1 ! ?n = ?refs" "row_objects ?s1 = row_objects s"
    "key_arrays ?s1 = key_arrays s" "length (row_arrays ?s1) = Suc ?n"
    by simp_all
  show ?thesis
  proof (cases "Array_sort ?g rows")
    case (Inl e)
    with rel have "Array_sort ?f ?refs = Inl e" by simp
    then have "getSortedRows_s (Suc 0) compare s a k columnOptions = (?s1, Throws e)"
      using a k keys bound by (simp add: Let_def)
    moreover have "getSortedRows compare rows sortKeys columnOptions = Inl e"
      using Inl by (simp add: getSortedRows.simps)
    ultimately have "sort_ok s (getSortedRows_s (Suc 0) compare s a k columnOptions)
           (getSortedRows compare rows sortKeys columnOptions)"
      by (simp add: sort_ok_def)
    then show ?thesis ..
  next
    case (Inr sortedRows)
    with rel obtain sortedRefs where sr: "Array_sort ?f ?refs = Inr sortedRefs"
      and l': "list_all2 (represents_row 0 B s) sortedRefs sortedRows"
      by auto
    define s2 where "s2 = ?s1\<lparr>row_arrays := (row_arrays ?s1)[?n := sortedRefs]\<rparr>"
    have run: "getSortedRows_s (Suc fuel) compare s a k columnOptions
        = loop_s fuel compare s2 ?n 0 k columnOptions" for fuel
      using a k keys bound sr by (simp add: Let_def s2_def)
    have u: "unchanged_but {?n} s s2"
      by (simp add: unchanged_but_def s2_def nth_append)
    have n2: "?n < length (row_arrays s2)" by (simp add: s2_def)
    have arr2: "row_arrays s2 ! ?n = sortedRefs" by (simp add: s2_def)
    have "represents 0 B s sortedRefs sortedRows"
      using l' by (simp add: represents_list_all2)
    then have "represents 0 B s2 sortedRefs sortedRows"
      using u by (rule represents_preserved(1)) (use B in auto)
    then have rep2: "represents 0 B s2 (drop 0 (row_arrays s2 ! ?n)) sortedRows"
      by (simp add: arr2)
    have k2: "key_arrays s2 = key_arrays s" by (simp add: s2_def)
    from IH [OF Inr n2 rep2 k2] obtain fuel where
      ok: "loop_ok s2 ?n 0 (loop_s fuel compare s2 ?n 0 k columnOptions)
             (sortSubRows compare sortedRows sortKeys columnOptions)" ..
    obtain s' res where lp: "loop_s fuel compare s2 ?n 0 k columnOptions = (s', res)"
      by (cases "loop_s fuel compare s2 ?n 0 k columnOptions")
    have "unchanged_but {?n} s2 s'" using lp by (rule frame_loop)
    with n2 have n': "?n < length (row_arrays s')" by (simp add: unchanged_but_def)
    have pure: "getSortedRows compare rows sortKeys columnOptions
        = sortSubRows compare sortedRows sortKeys columnOptions"
      using Inr by (simp add: getSortedRows.simps)
    have "sort_ok s (getSortedRows_s (Suc fuel) compare s a k columnOptions)
           (getSortedRows compare rows sortKeys columnOptions)"
      using ok lp n' unfolding run pure
      by (cases res) (auto simp: sort_ok_def loop_ok_def split: sum.splits)
    then show ?thesis ..
  qed
qed

lemma represents_drop_Suc:
  assumes "represents lo hi s (drop i xs) (row # rest)"
  shows "represents lo hi s (drop (Suc i) xs) rest"
proof -
  obtain r refs where d: "drop i xs = r # refs"
    using assms by (cases "drop i xs") simp_all
  from drop_eq_ConsD [OF d] assms d show ?thesis by simp
qed

lemma refines_aux:
  fixes rows :: "'a BodyRow list"
  shows "\<And>(s :: 'a store) a B k.
     a < length (row_arrays s) \<Longrightarrow> B \<le> length (row_arrays s) \<Longrightarrow>
     represents 0 B s (row_arrays s ! a) rows \<Longrightarrow>
     k < length (key_arrays s) \<Longrightarrow> key_arrays s ! k = sortKeys \<Longrightarrow>
     \<exists>fuel. sort_ok s (getSortedRows_s fuel compare s a k columnOptions)
              (getSortedRows compare rows sortKeys columnOptions)"
    and "\<And>(s :: 'a store) n i B k.
     n < length (row_arrays s) \<Longrightarrow> B \<le> n \<Longrightarrow>
     represents 0 B s (drop i (row_arrays s ! n)) rows \<Longrightarrow>
     k < length (key_arrays s) \<Longrightarrow> key_arrays s ! k = sortKeys \<Longrightarrow>
     \<exists>fuel. loop_ok s n i (loop_s fuel compare s n i k columnOptions)
              (sortSubRows compare rows sortKeys columnOptions)"
proof (induction compare rows sortKeys columnOptions and compare rows sortKeys columnOptions
    rule: getSortedRows_sortSubRows.induct)
  case (1 compare rows sortKeys columnOptions)
  note prems = 1(2-6)
  show ?case
    using prems
  proof (rule sort_refines)
    fix sortedRows and s2 :: "'a store"
    assume A: "Array_sort (compareFn compare sortKeys columnOptions) rows = Inr sortedRows"
      "length (row_arrays s) < length (row_arrays s2)"
      "represents 0 B s2 (drop 0 (row_arrays s2 ! length (row_arrays s))) sortedRows"
      "key_arrays s2 = key_arrays s"
    show "\<exists>fuel. loop_ok s2 (length (row_arrays s)) 0
                 (loop_s fuel compare s2 (length (row_arrays s)) 0 k columnOptions)
                 (sortSubRows compare sortedRows sortKeys columnOptions)"
    proof (rule 1(1))
      show "Array_sort (compareFn compare sortKeys columnOptions) rows = Inr sortedRows"
        by (rule A(1))
      show "length (row_arrays s) < length (row_arrays s2)" by (rule A(2))
      show "B \<le> length (row_arrays s)" by (rule prems(2))
      show "represents 0 B s2 (drop 0 (row_arrays s2 ! length (row_arrays s))) sortedRows"
        by (rule A(3))
      show "k < length (key_arrays s2)" using prems(4) A(4) by simp
      show "key_arrays s2 ! k = sortKeys" using prems(5) A(4) by simp
    qed
  qed
next
  case (2 compare sortKeys columnOptions)
  from loop_refines_nil [OF 2(1) 2(3)]
  show ?case by blast
next
  case (3 compare row rest sortKeys columnOptions)
  note prems = 3(4-8)
  show ?case
  proof (cases "subRows row")
    case None
    have "\<exists>fuel. loop_ok s n (Suc i) (loop_s fuel compare s n (Suc i) k columnOptions)
               (sortSubRows compare rest sortKeys columnOptions)"
    proof (rule 3(1))
      show "subRows row = None" by (rule None)
      show "n < length (row_arrays s)" by (rule prems(1))
      show "B \<le> n" by (rule prems(2))
      show "represents 0 B s (drop (Suc i) (row_arrays s ! n)) rest"
        using prems(3) by (rule represents_drop_Suc)
      show "k < length (key_arrays s)" by (rule prems(4))
      show "key_arrays s ! k = sortKeys" by (rule prems(5))
    qed
    then obtain fuel where "loop_ok s n (Suc i) (loop_s fuel compare s n (Suc i) k columnOptions)
               (sortSubRows compare rest sortKeys columnOptions)" ..
    from loop_refines_leaf [OF prems(1) prems(3) None this] show ?thesis ..
  next
    case (Some subrows)
    show ?thesis
      using prems(1) prems(2) prems(3) Some
    proof (rule loop_refines_sub)
      fix a assume A: "a < length (row_arrays s)" "represents 0 B s (row_arrays s ! a) subrows"
      show "\<exists>fuel. sort_ok s (getSortedRows_s fuel compare s a k columnOptions)
                 (getSortedRows compare subrows sortKeys columnOptions)"
      proof (rule 3(2))
        show "subRows row = Some subrows" by (rule Some)
        show "a < length (row_arrays s)" by (rule A(1))
        show "B \<le> length (row_arrays s)" using prems(1) prems(2) by simp
        show "represents 0 B s (row_arrays s ! a) subrows" by (rule A(2))
        show "k < length (key_arrays s)" by (rule prems(4))
        show "key_arrays s ! k = sortKeys" by (rule prems(5))
      qed
    next
      fix ss and s2 :: "'a store"
      assume A: "getSortedRows compare subrows sortKeys columnOptions = Inr ss"
        "n < length (row_arrays s2)"
        "represents 0 B s2 (drop (Suc i) (row_arrays s2 ! n)) rest"
        "key_arrays s2 = key_arrays s"
      show "\<exists>fuel. loop_ok s2 n (Suc i) (loop_s fuel compare s2 n (Suc i) k columnOptions)
                 (sortSubRows compare rest sortKeys columnOptions)"
      proof (rule 3(3))
        show "subRows row = Some subrows" by (rule Some)
        show "getSortedRows compare subrows sortKeys columnOptions = Inr ss" by (rule A(1))
        show "n < length (row_arrays s2)" by (rule A(2))
        show "B \<le> n" by (rule prems(2))
        show "represents 0 B s2 (drop (Suc i) (row_arrays s2 ! n)) rest" by (rule A(3))
        show "k < length (key_arrays s2)" using prems(4) A(4) by simp
        show "key_arrays s2 ! k = sortKeys" using prems(5) A(4) by simp
      qed
    qed
  qed
qed

text \<open>
  On a store that holds a forest, and with budget enough, the call on the store and
  \<^verbatim>\<open>getSortedRows\<close> on the forest agree: both raise, or the call returns a new array
  that stands for the forest \<^verbatim>\<open>getSortedRows\<close> returns.
\<close>

lemma getSortedRows_s_refines:
  fixes s :: "'a store"
  assumes "a < length (row_arrays s)"
    and "represents 0 (length (row_arrays s)) s (row_arrays s ! a) rows"
    and "k < length (key_arrays s)"
  shows "\<exists>fuel0. \<forall>fuel\<ge>fuel0.
           sort_ok s (getSortedRows_s fuel compare s a k columnOptions)
             (getSortedRows compare rows (key_arrays s ! k) columnOptions)"
proof -
  from refines_aux(1) [OF assms(1) order_refl assms(2) assms(3) refl]
  obtain fuel0 where ok: "sort_ok s (getSortedRows_s fuel0 compare s a k columnOptions)
             (getSortedRows compare rows (key_arrays s ! k) columnOptions)" ..
  have "sort_ok s (getSortedRows_s fuel compare s a k columnOptions)
             (getSortedRows compare rows (key_arrays s ! k) columnOptions)"
    if "fuel0 \<le> fuel" for fuel
  proof -
    have eq: "getSortedRows_s fuel compare s a k columnOptions
      = getSortedRows_s fuel0 compare s a k columnOptions"
      using that sort_ok_fuel [OF ok] by (rule fuel_mono(1))
    show ?thesis unfolding eq by (rule ok)
  qed
  then show ?thesis by blast
qed

text \<open>
  C6. \<^verbatim>\<open>getSortedRows\<close> does not mutate its inputs. In the store, whatever the
  outcome of the call, every array of row references that existed before the call (the
  input sequence and the \<^verbatim>\<open>subRows\<close> of every input row among them) holds the same
  references, every row object that existed before has the same fields, \<^verbatim>\<open>subRows\<close>
  included, and the key sequences are the same: the call writes only to the arrays and
  objects it has created itself.
\<close>

theorem getSortedRows_s_frame:
  "take (length (row_arrays s))
     (row_arrays (fst (getSortedRows_s fuel compare s rows sortKeys columnOptions)))
     = row_arrays s \<and>
   take (length (row_objects s))
     (row_objects (fst (getSortedRows_s fuel compare s rows sortKeys columnOptions)))
     = row_objects s \<and>
   key_arrays (fst (getSortedRows_s fuel compare s rows sortKeys columnOptions)) = key_arrays s"
proof -
  let ?s' = "fst (getSortedRows_s fuel compare s rows sortKeys columnOptions)"
  have u: "unchanged_but {} s ?s'" using frame_aux [of fuel compare sortKeys columnOptions] by blast
  have "take (length (row_arrays s)) (row_arrays ?s') = row_arrays s"
    using u by (intro nth_equalityI) (simp_all add: unchanged_but_def)
  moreover have "take (length (row_objects s)) (row_objects ?s') = row_objects s"
    using u by (intro nth_equalityI) (simp_all add: unchanged_but_def)
  moreover have "key_arrays ?s' = key_arrays s"
    using u by (simp add: unchanged_but_def)
  ultimately show ?thesis by blast
qed

text \<open>A run on the store of the example \<open>family\<close>: the arrays 0 and 1 are the input.\<close>

lemma family_store_run:
  "getSortedRows_s 8 compare_spec family_store 0 0 Map.empty =
     (\<lparr>row_arrays = [[0, 3], [1, 2], [3, 4], [2, 1]],
       row_objects = row_objects family_store @
         [\<lparr>r_others = 0, r_cellForId = [''v'' \<mapsto> DataBodyCell ''v'' (JNumber 3)], r_subRows = Some 3\<rparr>],
       key_arrays = [[\<lparr>id' = ''v'', order' = asc\<rparr>]]\<rparr>, Returns 2)"
  by (simp add: family_store_def numeral_eq_Suc row_view_def Let_def)

theorem getSortedRows_s_frame_witness:
  "snd (getSortedRows_s 8 compare_spec family_store 0 0 Map.empty) = Returns 2 \<and>
   row_arrays (fst (getSortedRows_s 8 compare_spec family_store 0 0 Map.empty))
     = [[0, 3], [1, 2], [3, 4], [2, 1]] \<and>
   take (length (row_arrays family_store))
     (row_arrays (fst (getSortedRows_s 8 compare_spec family_store 0 0 Map.empty)))
     = row_arrays family_store \<and>
   take (length (row_objects family_store))
     (row_objects (fst (getSortedRows_s 8 compare_spec family_store 0 0 Map.empty)))
     = row_objects family_store \<and>
   key_arrays (fst (getSortedRows_s 8 compare_spec family_store 0 0 Map.empty))
     = key_arrays family_store"
  using getSortedRows_s_frame [of family_store 8 compare_spec 0 0 Map.empty]
  by (simp add: family_store_run)

end
